theory Spec2Isabelle
  imports Complex_Main "HOL-Library.Multiset"
begin

section \<open>The key-rotating client (terminal\_app/llm\_client.py)\<close>

text \<open>
  Timestamps are the values of \<^verbatim>\<open>time.time()\<close>, taken as real numbers. A credential is
  the string read from the environment. The lock of the key manager guards single
  statements only and is left out: one call of \<^verbatim>\<open>next_key\<close> or \<^verbatim>\<open>backoff\<close> is one step.
\<close>

subsection \<open>Classification of a failure message\<close>

definition lower_char :: "char \<Rightarrow> char" where
  "lower_char c =
     (let n = (of_char c :: nat) in if 65 \<le> n \<and> n \<le> 90 then char_of (n + 32) else c)"

definition lower :: "string \<Rightarrow> string" where
  "lower s = map lower_char s"

fun starts_with :: "string \<Rightarrow> string \<Rightarrow> bool" where
  "starts_with [] s = True"
| "starts_with (t # ts) [] = False"
| "starts_with (t # ts) (c # cs) = (t = c \<and> starts_with ts cs)"

text \<open>\<^verbatim>\<open>token in msg\<close>: the token occurs as a contiguous piece of the message.\<close>

fun contains :: "string \<Rightarrow> string \<Rightarrow> bool" where
  "contains tok [] = (tok = [])"
| "contains tok (c # cs) = (starts_with tok (c # cs) \<or> contains tok cs)"

definition RATE_LIMIT_TOKENS :: "string list" where
  "RATE_LIMIT_TOKENS =
     [''rate limit'', ''429'', ''limit'', ''quota'', ''too many'', ''overloaded'']"

definition is_rate_limit :: "string \<Rightarrow> bool" where
  "is_rate_limit exc = (let msg = lower exc in list_ex (\<lambda>token. contains token msg) RATE_LIMIT_TOKENS)"

subsection \<open>KeyManager\<close>

record key_manager =
  keys :: "string list"
  cooldown_seconds :: real
  cooldown_until :: "string \<rightharpoonup> real"
  cursor :: nat

datatype init_error = NoKeysFound

text \<open>
  The constructor receives the values of the environment variables whose name starts
  with GROQ\_API\_KEY, in the order of the sorted names; empty values are dropped.
\<close>

definition KeyManager_init :: "string list \<Rightarrow> real \<Rightarrow> init_error + key_manager" where
  "KeyManager_init env_values cooldown =
     (let ks = filter (\<lambda>v. v \<noteq> []) env_values in
      if ks = [] then Inl NoKeysFound
      else Inr \<lparr>keys = ks, cooldown_seconds = cooldown, cooldown_until = Map.empty, cursor = 0\<rparr>)"

definition is_available :: "key_manager \<Rightarrow> string \<Rightarrow> real \<Rightarrow> bool" where
  "is_available km key now = ((case cooldown_until km key of None \<Rightarrow> 0 | Some t \<Rightarrow> t) \<le> now)"

text \<open>
  The body of \<^verbatim>\<open>for _ in range(len(self.keys))\<close>, with the number of rounds left as the
  first argument.
\<close>

fun next_key_loop :: "nat \<Rightarrow> real \<Rightarrow> key_manager \<Rightarrow> string option \<times> key_manager" where
  "next_key_loop 0 now km = (None, km)"
| "next_key_loop (Suc n) now km =
     (let idx = cursor km mod length (keys km);
          key = keys km ! idx;
          km' = km\<lparr>cursor := (cursor km + 1) mod length (keys km)\<rparr>
      in if is_available km' key now then (Some key, km') else next_key_loop n now km')"

definition next_key :: "real \<Rightarrow> key_manager \<Rightarrow> string option \<times> key_manager" where
  "next_key now km = next_key_loop (length (keys km)) now km"

definition backoff :: "string \<Rightarrow> real \<Rightarrow> key_manager \<Rightarrow> key_manager" where
  "backoff key now km = km\<lparr>cooldown_until := (cooldown_until km)(key \<mapsto> now + cooldown_seconds km)\<rparr>"

subsection \<open>GroqLLM.\_with\_key\<close>

text \<open>
  What one invocation meets outside itself, indexed by the value of \<^verbatim>\<open>tried\<close> at the
  attempt: the clock read by \<^verbatim>\<open>next_key\<close>, the clock read by \<^verbatim>\<open>backoff\<close>, and what
  \<^verbatim>\<open>fn(client)\<close> does with the client of the given key (a result, or an exception
  with its message).
\<close>

datatype outcome = Returned string | Raised string

record world =
  clock_next :: "nat \<Rightarrow> real"
  clock_backoff :: "nat \<Rightarrow> real"
  call_fn :: "nat \<Rightarrow> string \<Rightarrow> outcome"

datatype llm_error = GroqRateLimitError string

fun join :: "string \<Rightarrow> string list \<Rightarrow> string" where
  "join sep [] = []"
| "join sep [x] = x"
| "join sep (x # y # ys) = x @ sep @ join sep (y # ys)"

text \<open>
  The result of an invocation: what it returns or raises, the key manager afterwards,
  and the keys \<^verbatim>\<open>fn\<close> was called with, in order (the network attempts).
\<close>

record with_key_result =
  answer :: "llm_error + string"
  manager :: key_manager
  attempts :: "string list"

function with_key_loop ::
  "world \<Rightarrow> nat \<Rightarrow> nat \<Rightarrow> string list \<Rightarrow> string list \<Rightarrow> key_manager \<Rightarrow> with_key_result" where
  "with_key_loop w max_tries tried errors calls km =
     (if tried < max_tries then
        (case next_key (clock_next w tried) km of
           (None, km') \<Rightarrow>
             \<lparr>answer = Inl (GroqRateLimitError
                 (''All Groq keys failed or are cooling down: '' @ join ''; '' errors)),
              manager = km', attempts = calls\<rparr>
         | (Some key, km') \<Rightarrow>
             if key = [] then
               \<lparr>answer = Inl (GroqRateLimitError
                   (''All Groq keys failed or are cooling down: '' @ join ''; '' errors)),
                manager = km', attempts = calls\<rparr>
             else
               (case call_fn w tried key of
                  Returned result \<Rightarrow>
                    \<lparr>answer = Inr result, manager = km', attempts = calls @ [key]\<rparr>
                | Raised exc \<Rightarrow>
                    if is_rate_limit exc then
                      with_key_loop w max_tries (tried + 1)
                        (errors @ [take 5 key @ ''*** rate-limited; cooling down''])
                        (calls @ [key])
                        (backoff key (clock_backoff w tried) km')
                    else
                      with_key_loop w max_tries (tried + 1)
                        (errors @ [take 5 key @ ''*** failed: '' @ exc])
                        (calls @ [key])
                        km'))
      else
        \<lparr>answer = Inl (GroqRateLimitError
            (''All Groq keys failed or are cooling down: '' @ join ''; '' errors)),
         manager = km, attempts = calls\<rparr>)"
  by pat_completeness auto
termination
  by (relation "measure (\<lambda>(w, max_tries, tried, errors, calls, km). max_tries - tried)") auto

declare with_key_loop.simps [simp del]

definition with_key :: "world \<Rightarrow> key_manager \<Rightarrow> with_key_result" where
  "with_key w km = with_key_loop w (length (keys km)) 0 [] [] km"


section \<open>The overlapping recorder (terminal\_app/audio.py)\<close>

text \<open>
  The recorder runs several threads: the thread calling \<^verbatim>\<open>start\<close>, \<^verbatim>\<open>pause\<close>, \<^verbatim>\<open>resume\<close>,
  \<^verbatim>\<open>stop\<close> and \<^verbatim>\<open>cancel\<close> (the controller), the scheduler, one thread per segment, one
  watcher per segment and the transcriber. The model is a transition system: a state
  holds the attributes of the manager, the segment objects, the files and the place each
  thread has reached; an event is one step of one thread, a block of code that runs
  under a lock or between two blocking calls. An execution is a list of events, and a
  property of every interleaving is a property of every list of events.

  Two things are taken from outside: a \<^verbatim>\<open>join\<close> returns when the joined thread has
  ended (no timeout of a join expires), and the controller's methods are called one
  after the other (a call starts when the previous one has returned).
\<close>

subsection \<open>RecordingSegment\<close>

text \<open>A temporary file is identified by a number, the name \<^verbatim>\<open>mkstemp\<close> gave it.\<close>

type_synonym path = nat

text \<open>
  How the \<^verbatim>\<open>try\<close> block of \<^verbatim>\<open>run\<close> ended: the loop ended (stop event or maximal
  duration) with so many blocks in \<^verbatim>\<open>frames\<close>, or an exception was raised.
\<close>

datatype capture = Captured nat | CaptureError

record segment =
  started_at :: real
  stop_event :: bool
  file_path :: "path option"
  ended :: "capture option" \<comment> \<open>\<open>None\<close> while the thread is alive\<close>
  watched :: bool \<comment> \<open>the watcher of the segment has run\<close>

definition new_segment :: "real \<Rightarrow> segment" where
  "new_segment now =
     \<lparr>started_at = now, stop_event = False, file_path = None, ended = None, watched = False\<rparr>"

definition segment_run :: "capture \<Rightarrow> path \<Rightarrow> segment \<Rightarrow> path set \<Rightarrow> segment \<times> path set" where
  "segment_run cap temp_path seg fs =
     (case cap of
        CaptureError \<Rightarrow> (seg\<lparr>ended := Some cap\<rparr>, fs)
      | Captured n \<Rightarrow>
          if n = 0 then (seg\<lparr>ended := Some cap\<rparr>, fs)
          else (seg\<lparr>file_path := Some temp_path, ended := Some cap\<rparr>, insert temp_path fs))"

subsection \<open>State of the recorder\<close>

datatype sched = SLoop | SStopping "nat list" | SDead

datatype tpc = TCheck | TGet | TFlight real path | TDead

datatype op = Pause | Stop | Cancel

datatype cpc = CIdle | CJoinSched op | CReap op "nat list" | CJoinTr op

text \<open>What the recorder does to the outside, in order.\<close>

datatype action = Enqueue nat real path | Transcribe path | Sleep nat

record system =
  segment_gap :: real
  segment_duration :: real
  max_retries :: int
  stop_all :: bool
  scheduler :: "sched option"
  active :: "nat list"
  paused :: bool
  transcribing :: int
  pending_queue :: "(real \<times> path) list"
  results :: "(real \<times> string) list"
  transcriber_thread :: "tpc option"
  segments :: "segment list" \<comment> \<open>every segment object created so far; a segment is its index\<close>
  files :: "path set" \<comment> \<open>the audio files that exist\<close>
  sink :: "string option" \<comment> \<open>the content of the transcript file, \<open>None\<close> when it is absent\<close>
  ctl :: cpc \<comment> \<open>where the controller is\<close>
  log :: "action list"

text \<open>
  The constructor. The manager keeps neither \<^verbatim>\<open>max_workers\<close> nor a pool; the transcript
  file may exist from an earlier run.
\<close>

definition OverlapAudioManager_init ::
  "string option \<Rightarrow> real \<Rightarrow> real \<Rightarrow> int \<Rightarrow> int \<Rightarrow> system" where
  "OverlapAudioManager_init transcript gap duration max_workers retries =
     \<lparr>segment_gap = gap, segment_duration = duration, max_retries = retries,
      stop_all = False, scheduler = None, active = [], paused = False, transcribing = 0,
      pending_queue = [], results = [], transcriber_thread = None,
      segments = [], files = {}, sink = transcript, ctl = CIdle, log = []\<rparr>"


definition running :: "system \<Rightarrow> bool" where
  "running s = (case scheduler s of None \<Rightarrow> False | Some SDead \<Rightarrow> False | Some _ \<Rightarrow> True)"

definition transcriber_alive :: "system \<Rightarrow> bool" where
  "transcriber_alive s =
     (case transcriber_thread s of None \<Rightarrow> False | Some TDead \<Rightarrow> False | Some _ \<Rightarrow> True)"

definition segment_alive :: "system \<Rightarrow> nat \<Rightarrow> bool" where
  "segment_alive s sid = (ended (segments s ! sid) = None)"

subsection \<open>The transcript file\<close>

definition is_space :: "char \<Rightarrow> bool" where
  "is_space c = (let n = (of_char c :: nat) in n = 32 \<or> (9 \<le> n \<and> n \<le> 13) \<or> (28 \<le> n \<and> n \<le> 31))"

definition strip :: "string \<Rightarrow> string" where
  "strip s = rev (dropWhile is_space (rev (dropWhile is_space s)))"

definition clear_transcript :: "system \<Rightarrow> system" where
  "clear_transcript s = s\<lparr>sink := None\<rparr>"

definition read_transcript :: "system \<Rightarrow> string" where
  "read_transcript s = (case sink s of None \<Rightarrow> [] | Some content \<Rightarrow> content)"

definition write_transcript :: "system \<Rightarrow> system" where
  "write_transcript s =
     (let sorted_results = sort_key fst (results s);
          texts = map snd sorted_results
      in if texts \<noteq> [] then s\<lparr>sink := Some (join '' '' texts)\<rparr> else s)"

subsection \<open>The pending queue\<close>

text \<open>
  A \<^verbatim>\<open>PriorityQueue\<close> of pairs: \<^verbatim>\<open>get\<close> takes the least pair, by the time and then by
  the path. The queue is kept as the list of its items in that order.
\<close>

fun item_le :: "real \<times> path \<Rightarrow> real \<times> path \<Rightarrow> bool" where
  "item_le (t1, p1) (t2, p2) = (t1 < t2 \<or> (t1 = t2 \<and> p1 \<le> p2))"

fun pq_put :: "real \<times> path \<Rightarrow> (real \<times> path) list \<Rightarrow> (real \<times> path) list" where
  "pq_put x [] = [x]"
| "pq_put x (y # ys) = (if item_le x y then x # y # ys else y # pq_put x ys)"

subsection \<open>\_transcribe\_single\<close>

text \<open>
  What \<^verbatim>\<open>self.llm.transcribe\<close> does at a call: the text, the error of the client when
  its credentials are exhausted, or another exception. The calls of one item are numbered
  from 0.
\<close>

datatype attempt = Text string | RateLimited | Failed

function transcribe_single_loop ::
  "int \<Rightarrow> (nat \<Rightarrow> attempt) \<Rightarrow> path \<Rightarrow> nat \<Rightarrow> action list \<Rightarrow> string \<times> action list" where
  "transcribe_single_loop maxr llm p retries trace =
     (if int retries \<le> maxr then
        (case llm retries of
           Text text \<Rightarrow> (text, trace @ [Transcribe p])
         | RateLimited \<Rightarrow>
             if int (retries + 1) > maxr then ([], trace @ [Transcribe p])
             else transcribe_single_loop maxr llm p (retries + 1) (trace @ [Transcribe p, Sleep 5])
         | Failed \<Rightarrow>
             if int (retries + 1) > maxr then ([], trace @ [Transcribe p])
             else transcribe_single_loop maxr llm p (retries + 1) (trace @ [Transcribe p, Sleep 1]))
      else ([], trace))"
  by pat_completeness auto
termination
  by (relation "measure (\<lambda>(maxr, llm, p, retries, trace). nat (maxr + 1 - int retries))") auto

declare transcribe_single_loop.simps [simp del]

definition transcribe_single :: "int \<Rightarrow> (nat \<Rightarrow> attempt) \<Rightarrow> path \<Rightarrow> string \<times> action list" where
  "transcribe_single maxr llm p = transcribe_single_loop maxr llm p 0 []"

subsection \<open>Steps of the threads\<close>

text \<open>\<^verbatim>\<open>seg.file_path and seg.file_path.exists()\<close>, then the \<^verbatim>\<open>put\<close>.\<close>

definition queue_if_file :: "nat \<Rightarrow> system \<Rightarrow> system" where
  "queue_if_file sid s =
     (let seg = segments s ! sid in
      case file_path seg of
        None \<Rightarrow> s
      | Some p \<Rightarrow>
          if p \<in> files s then
            s\<lparr>pending_queue := pq_put (started_at seg, p) (pending_queue s),
              log := log s @ [Enqueue sid (started_at seg) p]\<rparr>
          else s)"

definition unlink_if_file :: "nat \<Rightarrow> system \<Rightarrow> system" where
  "unlink_if_file sid s =
     (case file_path (segments s ! sid) of
        None \<Rightarrow> s
      | Some p \<Rightarrow> s\<lparr>files := files s - {p}\<rparr>)"

definition set_stop_event :: "nat \<Rightarrow> system \<Rightarrow> system" where
  "set_stop_event sid s = s\<lparr>segments := (segments s)[sid := (segments s ! sid)\<lparr>stop_event := True\<rparr>]\<rparr>"

text \<open>
  The loops over the copy of the active list start with \<^verbatim>\<open>seg.stop_event.set()\<close> and
  then block in \<^verbatim>\<open>seg.join\<close>: setting the event of the next segment belongs to the
  step that reaches it.
\<close>

definition stop_next :: "nat list \<Rightarrow> system \<Rightarrow> system" where
  "stop_next todo s = (case todo of [] \<Rightarrow> s | sid # _ \<Rightarrow> set_stop_event sid s)"

text \<open>\<^verbatim>\<open>_watch_segment\<close>, after the \<^verbatim>\<open>join\<close>: the block under the lock.\<close>

definition watch_segment :: "nat \<Rightarrow> system \<Rightarrow> system" where
  "watch_segment sid s =
     (let s1 = s\<lparr>segments := (segments s)[sid := (segments s ! sid)\<lparr>watched := True\<rparr>]\<rparr> in
      if sid \<in> set (active s1) then queue_if_file sid (s1\<lparr>active := remove1 sid (active s1)\<rparr>)
      else s1)"

text \<open>The scheduler: one round of \<^verbatim>\<open>_schedule\<close>, and \<^verbatim>\<open>_stop_active_segments\<close> at its end.\<close>

definition sched_spawn :: "real \<Rightarrow> system \<Rightarrow> system" where
  "sched_spawn now s =
     s\<lparr>segments := segments s @ [new_segment now], active := active s @ [length (segments s)]\<rparr>"

definition sched_stop :: "system \<Rightarrow> system" where
  "sched_stop s = stop_next (active s) (s\<lparr>active := [], scheduler := Some (SStopping (active s))\<rparr>)"

definition sched_reap :: "nat \<Rightarrow> nat list \<Rightarrow> system \<Rightarrow> system" where
  "sched_reap sid rest s = stop_next rest ((queue_if_file sid s)\<lparr>scheduler := Some (SStopping rest)\<rparr>)"

text \<open>The transcriber: \<^verbatim>\<open>_transcriber_loop\<close>.\<close>

definition tr_check :: "system \<Rightarrow> system" where
  "tr_check s =
     (if stop_all s \<and> pending_queue s = [] \<and> transcribing s = 0
      then s\<lparr>transcriber_thread := Some TDead\<rparr>
      else s\<lparr>transcriber_thread := Some TGet\<rparr>)"

definition tr_get :: "system \<Rightarrow> system" where
  "tr_get s =
     (case pending_queue s of
        [] \<Rightarrow> if stop_all s then s\<lparr>transcriber_thread := Some TDead\<rparr>
              else s\<lparr>transcriber_thread := Some TCheck\<rparr>
      | (start_ts, p) # rest \<Rightarrow>
          s\<lparr>pending_queue := rest, transcribing := transcribing s + 1,
            transcriber_thread := Some (TFlight start_ts p)\<rparr>)"

definition tr_done :: "(nat \<Rightarrow> attempt) \<Rightarrow> real \<Rightarrow> path \<Rightarrow> system \<Rightarrow> system" where
  "tr_done llm start_ts p s =
     (let (text, trace) = transcribe_single (max_retries s) llm p;
          s1 = s\<lparr>log := log s @ trace\<rparr>;
          s2 = (if text \<noteq> [] then write_transcript (s1\<lparr>results := results s1 @ [(start_ts, strip text)]\<rparr>)
                else s1)
      in s2\<lparr>files := files s2 - {p}, transcribing := transcribing s2 - 1,
            transcriber_thread := Some TCheck\<rparr>)"

text \<open>The controller: the public methods, cut at their \<^verbatim>\<open>join\<close>s.\<close>

definition start :: "system \<Rightarrow> system" where
  "start s =
     (if running s then s
      else (clear_transcript (s\<lparr>paused := False, stop_all := False\<rparr>))
             \<lparr>results := [], pending_queue := [],
              transcriber_thread := Some TCheck, scheduler := Some SLoop\<rparr>)"

definition resume :: "system \<Rightarrow> system" where
  "resume s =
     (if running s then s
      else if \<not> paused s then s
      else s\<lparr>paused := False, stop_all := False,
             transcriber_thread :=
               (if transcriber_alive s then transcriber_thread s else Some TCheck),
             scheduler := Some SLoop\<rparr>)"

definition pause_call :: "system \<Rightarrow> system" where
  "pause_call s =
     (if \<not> running s then s
      else s\<lparr>paused := True, stop_all := True, ctl := CJoinSched Pause\<rparr>)"

definition stop_call :: "system \<Rightarrow> system" where
  "stop_call s = s\<lparr>paused := False, stop_all := True, ctl := CJoinSched Stop\<rparr>"

definition cancel_call :: "system \<Rightarrow> system" where
  "cancel_call s = s\<lparr>paused := False, stop_all := True, ctl := CJoinSched Cancel\<rparr>"

text \<open>
  After the scheduler has been joined: \<^verbatim>\<open>pause\<close> and \<^verbatim>\<open>stop\<close> enter
  \<^verbatim>\<open>_stop_active_segments\<close>, which copies and clears the active list under the lock;
  \<^verbatim>\<open>cancel\<close> copies it and clears it only after its loop.
\<close>

definition ctl_take :: "op \<Rightarrow> system \<Rightarrow> system" where
  "ctl_take m s =
     (case m of
        Cancel \<Rightarrow> stop_next (active s) (s\<lparr>ctl := CReap Cancel (active s)\<rparr>)
      | _ \<Rightarrow> stop_next (active s) (s\<lparr>active := [], ctl := CReap m (active s)\<rparr>))"

definition ctl_reap :: "op \<Rightarrow> nat \<Rightarrow> nat list \<Rightarrow> system \<Rightarrow> system" where
  "ctl_reap m sid rest s =
     stop_next rest
       ((case m of Cancel \<Rightarrow> unlink_if_file sid s | _ \<Rightarrow> queue_if_file sid s)\<lparr>ctl := CReap m rest\<rparr>)"

definition clear_pending :: "system \<Rightarrow> system" where
  "clear_pending s = s\<lparr>files := files s - snd ` set (pending_queue s), pending_queue := []\<rparr>"

definition ctl_reaped :: "op \<Rightarrow> system \<Rightarrow> system" where
  "ctl_reaped m s =
     (case m of
        Cancel \<Rightarrow> (clear_pending (s\<lparr>active := []\<rparr>))\<lparr>ctl := CJoinTr Cancel\<rparr>
      | _ \<Rightarrow> s\<lparr>ctl := CJoinTr m\<rparr>)"

definition ctl_finish :: "op \<Rightarrow> system \<Rightarrow> system" where
  "ctl_finish m s =
     (case m of
        Cancel \<Rightarrow> (clear_transcript (s\<lparr>transcriber_thread := None, results := []\<rparr>))\<lparr>ctl := CIdle\<rparr>
      | _ \<Rightarrow> s\<lparr>transcriber_thread := None, ctl := CIdle\<rparr>)"

subsection \<open>Events and executions\<close>

text \<open>\<^verbatim>\<open>mkstemp\<close> returns a name that no segment has been given before.\<close>

definition fresh_path :: "system \<Rightarrow> path \<Rightarrow> bool" where
  "fresh_path s p = list_all (\<lambda>seg. file_path seg \<noteq> Some p) (segments s)"

text \<open>The thread of a segment ends: \<^verbatim>\<open>run\<close> returns.\<close>

definition segment_end :: "nat \<Rightarrow> capture \<Rightarrow> path \<Rightarrow> system \<Rightarrow> system" where
  "segment_end sid cap temp_path s =
     (let (seg, fs) = segment_run cap temp_path (segments s ! sid) (files s)
      in s\<lparr>segments := (segments s)[sid := seg], files := fs\<rparr>)"

datatype event =
    Call_start | Call_resume | Call_pause | Call_stop | Call_cancel
  | Ctl \<comment> \<open>the controller goes on to its next blocking call, or returns\<close>
  | Sched_spawn real | Sched_stop | Sched_reap | Sched_exit
  | Seg_end nat capture path
  | Watch nat
  | Tr_check | Tr_get | Tr_done "nat \<Rightarrow> attempt"

text \<open>A step is \<open>None\<close> when the thread cannot take it in the state.\<close>

fun step :: "event \<Rightarrow> system \<Rightarrow> system option" where
  "step Call_start s = (if ctl s = CIdle then Some (start s) else None)"
| "step Call_resume s = (if ctl s = CIdle then Some (resume s) else None)"
| "step Call_pause s = (if ctl s = CIdle then Some (pause_call s) else None)"
| "step Call_stop s = (if ctl s = CIdle then Some (stop_call s) else None)"
| "step Call_cancel s = (if ctl s = CIdle then Some (cancel_call s) else None)"
| "step Ctl s =
     (case ctl s of
        CIdle \<Rightarrow> None
      | CJoinSched m \<Rightarrow> if running s then None else Some (ctl_take m s)
      | CReap m [] \<Rightarrow> Some (ctl_reaped m s)
      | CReap m (sid # rest) \<Rightarrow> if segment_alive s sid then None else Some (ctl_reap m sid rest s)
      | CJoinTr m \<Rightarrow> if transcriber_alive s then None else Some (ctl_finish m s))"
| "step (Sched_spawn now) s =
     (if scheduler s = Some SLoop \<and> \<not> stop_all s then Some (sched_spawn now s) else None)"
| "step Sched_stop s =
     (if scheduler s = Some SLoop \<and> stop_all s then Some (sched_stop s) else None)"
| "step Sched_reap s =
     (case scheduler s of
        Some (SStopping (sid # rest)) \<Rightarrow>
          if segment_alive s sid then None else Some (sched_reap sid rest s)
      | _ \<Rightarrow> None)"
| "step Sched_exit s =
     (if scheduler s = Some (SStopping []) then Some (s\<lparr>scheduler := Some SDead\<rparr>) else None)"
| "step (Seg_end sid cap temp_path) s =
     (if sid < length (segments s) \<and> segment_alive s sid \<and> fresh_path s temp_path
      then Some (segment_end sid cap temp_path s) else None)"
| "step (Watch sid) s =
     (if sid < length (segments s) \<and> \<not> segment_alive s sid \<and> \<not> watched (segments s ! sid)
      then Some (watch_segment sid s) else None)"
| "step Tr_check s = (if transcriber_thread s = Some TCheck then Some (tr_check s) else None)"
| "step Tr_get s = (if transcriber_thread s = Some TGet then Some (tr_get s) else None)"
| "step (Tr_done llm) s =
     (case transcriber_thread s of
        Some (TFlight start_ts p) \<Rightarrow> Some (tr_done llm start_ts p s)
      | _ \<Rightarrow> None)"

fun exec :: "event list \<Rightarrow> system \<Rightarrow> system option" where
  "exec [] s = Some s"
| "exec (e # es) s = (case step e s of None \<Rightarrow> None | Some s' \<Rightarrow> exec es s')"


section \<open>Auxiliary notions of the proofs\<close>

text \<open>
  What a sweep that starts at \<^verbatim>\<open>tried\<close> leaves behind, with \<^verbatim>\<open>rs\<close> the credentials in
  round-robin order from the cursor of the invocation and \<^verbatim>\<open>m\<close> the value of
  \<^verbatim>\<open>tried\<close> when the loop ends (counting a successful call).
\<close>

definition sweep_post ::
  "world \<Rightarrow> string list \<Rightarrow> nat \<Rightarrow> key_manager \<Rightarrow> nat \<Rightarrow> string list \<Rightarrow> with_key_result \<Rightarrow> nat \<Rightarrow> bool" where
  "sweep_post w rs tried km N calls r m =
     (tried \<le> m \<and> m \<le> N \<and>
      attempts r = calls @ drop tried (take m rs) \<and>
      (isl (answer r) \<longrightarrow> m = N) \<and>
      (\<forall>j. tried \<le> j \<and> j < m \<longrightarrow>
         (\<forall>e. call_fn w j (rs ! j) = Raised e \<longrightarrow> is_rate_limit e \<longrightarrow>
            cooldown_until (manager r) (rs ! j) = Some (clock_backoff w j + cooldown_seconds km))) \<and>
      (\<forall>k. k \<notin> set (drop tried (take m rs)) \<longrightarrow>
         cooldown_until (manager r) k = cooldown_until km k) \<and>
      keys (manager r) = keys km \<and> cooldown_seconds (manager r) = cooldown_seconds km \<and>
      ((\<forall>j<N. \<exists>e. call_fn w j (rs ! j) = Raised e) \<longrightarrow> isl (answer r)))"

definition stop_inv :: "system \<Rightarrow> bool" where
  "stop_inv s =
     (case ctl s of
        CIdle \<Rightarrow> True
      | CJoinSched m \<Rightarrow> stop_all s \<and> (m = Stop \<longrightarrow> \<not> paused s) \<and> (m = Pause \<longrightarrow> paused s)
      | CReap m l \<Rightarrow> stop_all s \<and> (m = Stop \<longrightarrow> \<not> paused s) \<and> (m = Pause \<longrightarrow> paused s) \<and>
                     \<not> running s \<and> (m \<noteq> Cancel \<longrightarrow> active s = [])
      | CJoinTr m \<Rightarrow> stop_all s \<and> (m = Stop \<longrightarrow> \<not> paused s) \<and> (m = Pause \<longrightarrow> paused s) \<and>
                     \<not> running s \<and> active s = [])"





definition retry_delay :: "attempt \<Rightarrow> nat" where
  "retry_delay a = (case a of RateLimited \<Rightarrow> 5 | _ \<Rightarrow> 1)"

definition retry_trace :: "path \<Rightarrow> (nat \<Rightarrow> attempt) \<Rightarrow> nat \<Rightarrow> nat \<Rightarrow> action list" where
  "retry_trace p llm i n =
     concat (map (\<lambda>k. [Transcribe p, Sleep (retry_delay (llm k))]) [i..<n]) @ [Transcribe p]"

definition stuck_item :: system where
  "stuck_item = (OverlapAudioManager_init None 12 15 2 3)
     \<lparr>scheduler := Some SLoop, transcriber_thread := Some (TFlight 0 7), transcribing := 1,
      files := {7, 8}, pending_queue := [(12, 8)]\<rparr>"


definition stop_then_return :: "event list" where
  "stop_then_return = [Call_start, Call_stop, Sched_stop, Sched_exit, Tr_check, Ctl, Ctl]"

fun enqueue_of :: "nat \<Rightarrow> action \<Rightarrow> bool" where
  "enqueue_of sid (Enqueue i ts p) = (i = sid)"
| "enqueue_of sid (Transcribe p) = False"
| "enqueue_of sid (Sleep n) = False"

fun sched_list :: "sched option \<Rightarrow> nat list" where
  "sched_list (Some (SStopping l)) = l"
| "sched_list (Some SLoop) = []"
| "sched_list (Some SDead) = []"
| "sched_list None = []"

fun ctl_list :: "cpc \<Rightarrow> nat list" where
  "ctl_list (CReap Pause l) = l"
| "ctl_list (CReap Stop l) = l"
| "ctl_list (CReap Cancel l) = []"
| "ctl_list (CJoinSched m) = []"
| "ctl_list (CJoinTr m) = []"
| "ctl_list CIdle = []"

definition owners :: "system \<Rightarrow> nat list" where
  "owners s = active s @ sched_list (scheduler s) @ ctl_list (ctl s)"

definition own_ok ::
  "nat list \<Rightarrow> nat \<Rightarrow> (nat \<Rightarrow> path option) \<Rightarrow> (nat \<Rightarrow> real) \<Rightarrow> (nat \<Rightarrow> capture option) \<Rightarrow>
   action list \<Rightarrow> bool" where
  "own_ok os n fp st en L =
     (distinct os \<and>
      (\<forall>sid\<in>set os. sid < n \<and> filter (enqueue_of sid) L = []) \<and>
      (\<forall>sid. length (filter (enqueue_of sid) L) \<le> 1) \<and>
      (\<forall>sid ts p. Enqueue sid ts p \<in> set L \<longrightarrow> sid < n \<and> fp sid = Some p \<and> st sid = ts) \<and>
      (\<forall>sid<n. fp sid \<noteq> None \<longrightarrow> (\<exists>k. en sid = Some (Captured (Suc k)))))"

definition own_inv :: "system \<Rightarrow> bool" where
  "own_inv s =
     own_ok (owners s) (length (segments s)) (\<lambda>i. file_path (segments s ! i))
       (\<lambda>i. started_at (segments s ! i)) (\<lambda>i. ended (segments s ! i)) (log s)"

abbreviation own_view :: "system \<Rightarrow> nat list \<Rightarrow> action list \<Rightarrow> bool" where
  "own_view s os L \<equiv> own_ok os (length (segments s)) (\<lambda>i. file_path (segments s ! i))
       (\<lambda>i. started_at (segments s ! i)) (\<lambda>i. ended (segments s ! i)) L"

definition watcher_races_shutdown :: "event list" where
  "watcher_races_shutdown =
     [Call_start, Sched_spawn 0, Sched_spawn 12, Seg_end 0 (Captured 200) 7, Call_stop,
      Sched_stop, Watch 0, Sched_reap, Seg_end 1 (Captured 0) 8, Sched_reap, Watch 1]"

definition cancel_while_recording :: "event list" where
  "cancel_while_recording =
     [Call_start, Sched_spawn 0, Call_cancel, Sched_stop, Seg_end 0 (Captured 5) 7, Sched_reap,
      Sched_exit, Tr_check, Tr_get, Ctl, Ctl, Tr_done (\<lambda>_. Text ''hello''), Tr_check, Ctl]"

section \<open>Concrete inputs\<close>

definition two_keys :: key_manager where
  "two_keys = \<lparr>keys = [''gsk_A'', ''gsk_B''], cooldown_seconds = 300,
                cooldown_until = Map.empty, cursor = 0\<rparr>"

definition all_rate_limited :: world where
  "all_rate_limited = \<lparr>clock_next = (\<lambda>i. 100 + real i), clock_backoff = (\<lambda>i. 101 + real i),
                        call_fn = (\<lambda>i k. Raised ''Error code: 429'')\<rparr>"

definition soon_after :: world where
  "soon_after = \<lparr>clock_next = (\<lambda>i. 200), clock_backoff = (\<lambda>i. 200),
                  call_fn = (\<lambda>i k. Returned ''hello'')\<rparr>"

definition one_cooling :: key_manager where
  "one_cooling = \<lparr>keys = [''gsk_A'', ''gsk_B''], cooldown_seconds = 300,
                  cooldown_until = [''gsk_A'' \<mapsto> 400], cursor = 0\<rparr>"

definition all_unreachable :: world where
  "all_unreachable = \<lparr>clock_next = (\<lambda>i. 200), clock_backoff = (\<lambda>i. 200),
                       call_fn = (\<lambda>i k. Raised ''Connection error.'')\<rparr>"

definition mixed_failures :: world where
  "mixed_failures = \<lparr>clock_next = (\<lambda>i. 100 + real i), clock_backoff = (\<lambda>i. 101 + real i),
      call_fn = (\<lambda>i k. if i = 0 then Raised ''Error code: 429'' else Raised ''Connection error.'')\<rparr>"

section \<open>Properties of the key-rotating client\<close>

lemma next_key_loop_fields:
  "keys (snd (next_key_loop n now km)) = keys km \<and>
   cooldown_until (snd (next_key_loop n now km)) = cooldown_until km \<and>
   cooldown_seconds (snd (next_key_loop n now km)) = cooldown_seconds km"
  by (induction n arbitrary: km) (simp_all add: Let_def)

lemma is_available_cursor [simp]: "is_available (km\<lparr>cursor := c\<rparr>) k now = is_available km k now"
  by (simp add: is_available_def)

lemma take_Suc_rotate:
  assumes "Suc n \<le> length xs"
  shows "take (Suc n) (rotate c xs) = xs ! (c mod length xs) # take n (rotate (Suc c) xs)"
proof -
  have ne: "xs \<noteq> []" using assms by auto
  then obtain y ys where ys: "rotate c xs = y # ys"
    by (cases "rotate c xs") auto
  have "y = hd (rotate c xs)" using ys by simp
  then have y: "y = xs ! (c mod length xs)" using ne by (simp add: hd_rotate_conv_nth)
  have "length ys = length xs - 1" using ys by (metis length_rotate length_Cons diff_Suc_1)
  then have "n \<le> length ys" using assms by simp
  then have "take n (rotate (Suc c) xs) = take n ys" using ys by simp
  then show ?thesis using ys y by simp
qed

lemma next_key_loop_find:
  "n \<le> length (keys km) \<Longrightarrow>
   fst (next_key_loop n now km) =
     find (\<lambda>k. is_available km k now) (take n (rotate (cursor km) (keys km)))"
proof (induction n arbitrary: km)
  case 0
  then show ?case by simp
next
  case (Suc n)
  let ?N = "length (keys km)"
  let ?km' = "km\<lparr>cursor := (cursor km + 1) mod ?N\<rparr>"
  have "rotate ((cursor km + 1) mod ?N) (keys km) = rotate (Suc (cursor km)) (keys km)"
    by (metis Suc_eq_plus1 rotate_conv_mod)
  moreover have "n \<le> length (keys ?km')" using Suc.prems by simp
  ultimately have "fst (next_key_loop n now ?km') =
     find (\<lambda>k. is_available km k now) (take n (rotate (Suc (cursor km)) (keys km)))"
    using Suc.IH [of ?km'] by simp
  then show ?case using Suc.prems by (simp add: take_Suc_rotate Let_def)
qed

lemma next_key_find:
  "fst (next_key now km) = find (\<lambda>k. is_available km k now) (rotate (cursor km) (keys km))"
  by (simp add: next_key_def next_key_loop_find)

lemma next_key_hit:
  assumes "keys km \<noteq> []" "is_available km (keys km ! (cursor km mod length (keys km))) now"
  shows "next_key now km =
     (Some (keys km ! (cursor km mod length (keys km))),
      km\<lparr>cursor := (cursor km + 1) mod length (keys km)\<rparr>)"
proof -
  obtain n where "length (keys km) = Suc n" using assms(1) by (cases "keys km") auto
  then show ?thesis using assms(2) by (simp add: next_key_def Let_def)
qed

lemma next_key_none:
  assumes "\<forall>k \<in> set (keys km). \<not> is_available km k now"
  shows "fst (next_key now km) = None"
  using assms by (simp add: next_key_find find_None_iff)

lemma with_key_loop_step:
  assumes "tried < N" "keys km \<noteq> []" "key = keys km ! (cursor km mod length (keys km))"
    "key \<noteq> []" "is_available km key (clock_next w tried)"
  shows "with_key_loop w N tried errors calls km =
    (case call_fn w tried key of
       Returned result \<Rightarrow>
         \<lparr>answer = Inr result,
          manager = km\<lparr>cursor := (cursor km + 1) mod length (keys km)\<rparr>,
          attempts = calls @ [key]\<rparr>
     | Raised exc \<Rightarrow>
         if is_rate_limit exc then
           with_key_loop w N (tried + 1)
             (errors @ [take 5 key @ ''*** rate-limited; cooling down'']) (calls @ [key])
             (backoff key (clock_backoff w tried)
                (km\<lparr>cursor := (cursor km + 1) mod length (keys km)\<rparr>))
         else
           with_key_loop w N (tried + 1)
             (errors @ [take 5 key @ ''*** failed: '' @ exc]) (calls @ [key])
             (km\<lparr>cursor := (cursor km + 1) mod length (keys km)\<rparr>))"
  using assms next_key_hit [of km "clock_next w tried"]
  by (subst with_key_loop.simps) (simp split: outcome.split)

lemma with_key_loop_done:
  "\<not> tried < N \<Longrightarrow> with_key_loop w N tried errors calls km =
     \<lparr>answer = Inl (GroqRateLimitError
         (''All Groq keys failed or are cooling down: '' @ join ''; '' errors)),
      manager = km, attempts = calls\<rparr>"
  by (subst with_key_loop.simps) simp

lemma cooldown_until_backoff:
  "cooldown_until (backoff key now km) k =
     (if k = key then Some (now + cooldown_seconds km) else cooldown_until km k)"
  by (simp add: backoff_def)

lemma backoff_fields [simp]:
  "keys (backoff key now km) = keys km"
  "cursor (backoff key now km) = cursor km"
  "cooldown_seconds (backoff key now km) = cooldown_seconds km"
  by (simp_all add: backoff_def)

lemma is_available_backoff_other:
  "k \<noteq> key \<Longrightarrow> is_available (backoff key t km) k now = is_available km k now"
  by (simp add: is_available_def cooldown_until_backoff)

lemma with_key_loop_sweep:
  assumes ks: "distinct ks" "[] \<notin> set ks" "N = length ks"
  shows "keys km = ks \<Longrightarrow> tried \<le> N \<Longrightarrow> cursor km mod N = (c + tried) mod N \<Longrightarrow>
     (\<forall>j. tried \<le> j \<and> j < N \<longrightarrow> (\<forall>i<N. is_available km (rotate c ks ! j) (clock_next w i))) \<Longrightarrow>
     \<exists>m. sweep_post w (rotate c ks) tried km N calls (with_key_loop w N tried errors calls km) m"
proof (induction "N - tried" arbitrary: tried errors calls km)
  case 0
  then have "\<not> tried < N" by simp
  then have "sweep_post w (rotate c ks) tried km N calls (with_key_loop w N tried errors calls km) N"
    using "0.prems" ks by (auto simp: with_key_loop_done sweep_post_def)
  then show ?case ..
next
  case (Suc d)
  let ?rs = "rotate c ks"
  let ?key = "?rs ! tried"
  let ?km' = "km\<lparr>cursor := (cursor km + 1) mod length (keys km)\<rparr>"
  have lt: "tried < N" using Suc.hyps by simp
  have len: "length ?rs = N" using ks by simp
  have drs: "distinct ?rs" using ks by simp
  have key_nth: "?key = keys km ! (cursor km mod length (keys km))"
    using lt ks Suc.prems(1,3) by (simp add: nth_rotate)
  have "?key \<in> set ?rs" using lt len by (metis nth_mem)
  then have key_in: "?key \<in> set ks" by simp
  then have key_ne: "?key \<noteq> []" using ks by auto
  have ne: "keys km \<noteq> []" using Suc.prems(1) lt ks by auto
  have av: "is_available km ?key (clock_next w tried)" using Suc.prems(4) lt by simp
  note step = with_key_loop_step [OF lt ne key_nth key_ne av, of errors calls]
  have other: "\<And>j. Suc tried \<le> j \<Longrightarrow> j < N \<Longrightarrow> ?rs ! j \<noteq> ?key"
    using drs len lt by (simp add: nth_eq_iff_index_eq)
  have cur: "cursor ?km' mod N = (c + (tried + 1)) mod N"
    using Suc.prems(1,3) ks by (simp add: mod_Suc_eq) (metis mod_Suc_eq add_Suc_right)
  have hd_drop: "\<And>m. tried < m \<Longrightarrow> m \<le> N \<Longrightarrow>
      drop tried (take m ?rs) = ?key # drop (Suc tried) (take m ?rs)"
    using len by (metis Cons_nth_drop_Suc length_take min.absorb2 nth_take)
    show ?case
  proof (cases "call_fn w tried ?key")
    case (Returned x)
    have "drop tried (take (Suc tried) ?rs) = [?key]"
      using lt len by (simp add: take_Suc_conv_app_nth)
    then have "sweep_post w ?rs tried km N calls (with_key_loop w N tried errors calls km) (Suc tried)"
      using Returned step lt by (auto simp: sweep_post_def less_Suc_eq_le)
    then show ?thesis ..
  next
    case (Raised e)
    define km2 where "km2 = (if is_rate_limit e then backoff ?key (clock_backoff w tried) ?km' else ?km')"
    define errors2 where "errors2 = (if is_rate_limit e
        then errors @ [take 5 ?key @ ''*** rate-limited; cooling down'']
        else errors @ [take 5 ?key @ ''*** failed: '' @ e])"
    have run: "with_key_loop w N tried errors calls km =
        with_key_loop w N (tried + 1) errors2 (calls @ [?key]) km2"
      using step Raised by (simp add: km2_def errors2_def)
    have k2: "keys km2 = ks" "cooldown_seconds km2 = cooldown_seconds km"
      using Suc.prems(1) by (simp_all add: km2_def)
    have c2: "cursor km2 mod N = (c + (tried + 1)) mod N" using cur by (simp add: km2_def)
    have cd2: "\<And>k. k \<noteq> ?key \<Longrightarrow> cooldown_until km2 k = cooldown_until km k"
      by (simp add: km2_def cooldown_until_backoff)
    have cdk: "is_rate_limit e \<Longrightarrow>
        cooldown_until km2 ?key = Some (clock_backoff w tried + cooldown_seconds km)"
      by (simp add: km2_def cooldown_until_backoff)
    have av2: "\<forall>j. tried + 1 \<le> j \<and> j < N \<longrightarrow>
        (\<forall>i<N. is_available km2 (?rs ! j) (clock_next w i))"
      using Suc.prems(4) other cd2 by (simp add: is_available_def)
    have "d = N - (tried + 1)" using Suc.hyps by simp
    moreover have "tried + 1 \<le> N" using lt by simp
    ultimately have "\<exists>m. sweep_post w ?rs (tried + 1) km2 N (calls @ [?key])
        (with_key_loop w N (tried + 1) errors2 (calls @ [?key]) km2) m"
      using k2(1) c2 av2 by (intro Suc.hyps(1)) simp_all
    then obtain m where m: "sweep_post w ?rs (tried + 1) km2 N (calls @ [?key])
        (with_key_loop w N tried errors calls km) m"
      using run by auto
    let ?r = "with_key_loop w N tried errors calls km"
    have m1: "tried < m" "m \<le> N" using m by (simp_all add: sweep_post_def)
    have notin: "?key \<notin> set (drop (Suc tried) (take m ?rs))"
    proof
      assume "?key \<in> set (drop (Suc tried) (take m ?rs))"
      then obtain i where "i < length (drop (Suc tried) (take m ?rs))"
        "drop (Suc tried) (take m ?rs) ! i = ?key" by (auto simp: in_set_conv_nth)
      then have "Suc tried + i < N" "?rs ! (Suc tried + i) = ?key" using m1 len by auto
      then show False using other [of "Suc tried + i"] by simp
    qed
    have a: "attempts ?r = calls @ drop tried (take m ?rs)"
      using m hd_drop [OF m1] by (simp add: sweep_post_def)
    have b: "\<forall>j. tried \<le> j \<and> j < m \<longrightarrow>
         (\<forall>e. call_fn w j (?rs ! j) = Raised e \<longrightarrow> is_rate_limit e \<longrightarrow>
            cooldown_until (manager ?r) (?rs ! j) = Some (clock_backoff w j + cooldown_seconds km))"
    proof (intro allI impI)
      fix j e' assume j: "tried \<le> j \<and> j < m" and e': "call_fn w j (?rs ! j) = Raised e'" "is_rate_limit e'"
      show "cooldown_until (manager ?r) (?rs ! j) = Some (clock_backoff w j + cooldown_seconds km)"
      proof (cases "j = tried")
        case True
        then have "e' = e" using e' Raised by simp
        moreover have "cooldown_until (manager ?r) ?key = cooldown_until km2 ?key"
          using m notin by (simp add: sweep_post_def)
        ultimately show ?thesis using cdk e' True by simp
      next
        case False
        then have "tried + 1 \<le> j \<and> j < m" using j by simp
        then show ?thesis using m e' k2 by (simp add: sweep_post_def)
      qed
    qed
    have c: "\<forall>k. k \<notin> set (drop tried (take m ?rs)) \<longrightarrow>
         cooldown_until (manager ?r) k = cooldown_until km k"
      using m hd_drop [OF m1] cd2 by (simp add: sweep_post_def)
    have "sweep_post w ?rs tried km N calls ?r m"
      using a b c m m1 k2 Suc.prems(1) by (simp add: sweep_post_def)
    then show ?thesis ..
  qed
qed


lemma with_key_loop_none:
  assumes "tried < N" "fst (next_key (clock_next w tried) km) = None"
  shows "isl (answer (with_key_loop w N tried errors calls km)) \<and>
         attempts (with_key_loop w N tried errors calls km) = calls"
proof -
  obtain km' where "next_key (clock_next w tried) km = (None, km')"
    using assms(2) by (cases "next_key (clock_next w tried) km") auto
  then show ?thesis using assms(1) by (subst (1 2) with_key_loop.simps) simp
qed

lemma with_key_sweep:
  assumes "distinct (keys km)" "[] \<notin> set (keys km)"
    "\<forall>i<length (keys km). \<forall>k\<in>set (keys km). is_available km k (clock_next w i)"
  shows "\<exists>m. sweep_post w (rotate (cursor km) (keys km)) 0 km (length (keys km)) []
           (with_key w km) m"
proof -
  let ?N = "length (keys km)"
  have "\<forall>j. 0 \<le> j \<and> j < ?N \<longrightarrow>
      (\<forall>i<?N. is_available km (rotate (cursor km) (keys km) ! j) (clock_next w i))"
  proof (intro allI impI)
    fix j i assume "0 \<le> j \<and> j < ?N" "i < ?N"
    then have "rotate (cursor km) (keys km) ! j \<in> set (keys km)"
      by (metis length_rotate nth_mem set_rotate)
    then show "is_available km (rotate (cursor km) (keys km) ! j) (clock_next w i)"
      using assms(3) \<open>i < ?N\<close> by simp
  qed
  then show ?thesis
    unfolding with_key_def
    using with_key_loop_sweep [OF assms(1,2) refl refl, of 0 "cursor km" w "[]" "[]"]
    by simp
qed

text \<open>
  Claim C3. Take N distinct credentials, all available whenever the invocation scans
  them, and let every call of the wrapped function fail with a message classified as a
  rate limit. Then the invocation raises GroqRateLimitError after exactly N attempts,
  one per credential in round-robin order from the cursor; the credential of attempt j
  is cooling down until the time \<^verbatim>\<open>backoff\<close> read at that attempt plus 300 seconds; and
  an invocation that follows while all these cooldowns are in the future raises at once,
  with no attempt at all.
\<close>

theorem rate_limited_sweep_exhausts_credentials:
  assumes "distinct (keys km)" and "[] \<notin> set (keys km)"
    and "cooldown_seconds km = 300"
    and "\<forall>i<length (keys km). \<forall>k\<in>set (keys km). is_available km k (clock_next w i)"
    and "\<forall>i k. \<exists>e. call_fn w i k = Raised e \<and> is_rate_limit e"
  shows "(\<exists>msg. answer (with_key w km) = Inl (GroqRateLimitError msg)) \<and>
     length (attempts (with_key w km)) = length (keys km) \<and>
     attempts (with_key w km) = rotate (cursor km) (keys km) \<and>
     (\<forall>j<length (keys km).
        cooldown_until (manager (with_key w km)) (attempts (with_key w km) ! j) =
          Some (clock_backoff w j + 300)) \<and>
     (\<forall>w'. (\<forall>j<length (keys km). clock_next w' 0 < clock_backoff w j + 300) \<longrightarrow>
        (\<exists>msg. answer (with_key w' (manager (with_key w km))) = Inl (GroqRateLimitError msg)) \<and>
        attempts (with_key w' (manager (with_key w km))) = [])"
proof -
  let ?N = "length (keys km)"
  let ?rs = "rotate (cursor km) (keys km)"
  let ?r = "with_key w km"
  obtain m where m: "sweep_post w ?rs 0 km ?N [] ?r m"
    using with_key_sweep [OF assms(1,2,4)] by blast
  have raised: "\<forall>j<?N. \<exists>e. call_fn w j (?rs ! j) = Raised e" using assms(5) by blast
  have isl: "isl (answer ?r)" using m raised by (simp add: sweep_post_def)
  then have mN: "m = ?N" using m by (simp add: sweep_post_def)
  have att: "attempts ?r = ?rs" using m mN by (simp add: sweep_post_def)
  have cd: "\<forall>j<?N. cooldown_until (manager ?r) (?rs ! j) = Some (clock_backoff w j + 300)"
  proof (intro allI impI)
    fix j assume j: "j < ?N"
    obtain e where "call_fn w j (?rs ! j) = Raised e" "is_rate_limit e" using assms(5) by blast
    then show "cooldown_until (manager ?r) (?rs ! j) = Some (clock_backoff w j + 300)"
      using m mN j assms(3) by (simp add: sweep_post_def)
  qed
  have ks: "keys (manager ?r) = keys km" using m by (simp add: sweep_post_def)
  have again: "(\<exists>msg. answer (with_key w' (manager ?r)) = Inl (GroqRateLimitError msg)) \<and>
        attempts (with_key w' (manager ?r)) = []"
    if fut: "\<forall>j<?N. clock_next w' 0 < clock_backoff w j + 300" for w'
  proof (cases "?N = 0")
    case True
    then show ?thesis using ks by (simp add: with_key_def with_key_loop_done)
  next
    case False
    have "\<forall>k\<in>set (keys (manager ?r)). \<not> is_available (manager ?r) k (clock_next w' 0)"
    proof
      fix k assume "k \<in> set (keys (manager ?r))"
      then have "k \<in> set ?rs" using ks by simp
      then obtain j where "j < length ?rs" "?rs ! j = k" unfolding in_set_conv_nth by blast
      then have "j < ?N" by simp
      with \<open>?rs ! j = k\<close> have "j < ?N" "?rs ! j = k" by simp_all
      then show "\<not> is_available (manager ?r) k (clock_next w' 0)"
        using cd fut by (auto simp: is_available_def)
    qed
    then have "fst (next_key (clock_next w' 0) (manager ?r)) = None" by (rule next_key_none)
    moreover have "0 < length (keys (manager ?r))" using False ks by simp
    ultimately have "isl (answer (with_key w' (manager ?r))) \<and> attempts (with_key w' (manager ?r)) = []"
      unfolding with_key_def [of w' "manager ?r"] by (intro with_key_loop_none)
    then show ?thesis
      by (cases "answer (with_key w' (manager ?r))") (auto intro: llm_error.exhaust)
  qed
  have "\<exists>msg. answer ?r = Inl (GroqRateLimitError msg)"
    using isl by (cases "answer ?r") (auto intro: llm_error.exhaust)
  then show ?thesis using att cd again by simp
qed


lemma is_rate_limit_429: "is_rate_limit ''Error code: 429''"
  by (simp add: is_rate_limit_def lower_def lower_char_def RATE_LIMIT_TOKENS_def)

text \<open>Two credentials, both answering 429; a second invocation 99 seconds later.\<close>

theorem rate_limited_sweep_exhausts_credentials_witness:
  "attempts (with_key all_rate_limited two_keys) = [''gsk_A'', ''gsk_B''] \<and>
   cooldown_until (manager (with_key all_rate_limited two_keys)) ''gsk_A'' = Some 401 \<and>
   cooldown_until (manager (with_key all_rate_limited two_keys)) ''gsk_B'' = Some 402 \<and>
   isl (answer (with_key soon_after (manager (with_key all_rate_limited two_keys)))) \<and>
   attempts (with_key soon_after (manager (with_key all_rate_limited two_keys))) = []"
proof -
  have h1: "distinct (keys two_keys)" by (simp add: two_keys_def)
  have h2: "[] \<notin> set (keys two_keys)" by (simp add: two_keys_def)
  have h3: "cooldown_seconds two_keys = 300" by (simp add: two_keys_def)
  have h4: "\<forall>i<length (keys two_keys). \<forall>k\<in>set (keys two_keys).
      is_available two_keys k (clock_next all_rate_limited i)"
    by (simp add: two_keys_def all_rate_limited_def is_available_def)
  have h5: "\<forall>i k. \<exists>e. call_fn all_rate_limited i k = Raised e \<and> is_rate_limit e"
    using is_rate_limit_429 by (simp add: all_rate_limited_def)
  have k: "keys two_keys = [''gsk_A'', ''gsk_B'']" "cursor two_keys = 0"
    by (simp_all add: two_keys_def)
  note c = rate_limited_sweep_exhausts_credentials [OF h1 h2 h3 h4 h5, unfolded k]
  have att: "attempts (with_key all_rate_limited two_keys) = [''gsk_A'', ''gsk_B'']"
    using c by simp
  have cd: "cooldown_until (manager (with_key all_rate_limited two_keys))
        ([''gsk_A'', ''gsk_B''] ! j) = Some (clock_backoff all_rate_limited j + 300)"
    if "j < 2" for j
    using c that unfolding att by simp
  have "\<forall>j<length [''gsk_A'', ''gsk_B''].
      clock_next soon_after 0 < clock_backoff all_rate_limited j + 300"
    by (simp add: soon_after_def all_rate_limited_def)
  then have again: "(\<exists>msg. answer (with_key soon_after (manager (with_key all_rate_limited two_keys)))
        = Inl (GroqRateLimitError msg)) \<and>
      attempts (with_key soon_after (manager (with_key all_rate_limited two_keys))) = []"
    using c by blast
  show ?thesis
    using att cd [of 0] cd [of 1] again by (auto simp: all_rate_limited_def)
qed

text \<open>
  Claim C4, as stated, fails when a credential is cooling down at the start: with
  \<^verbatim>\<open>gsk_A\<close> cooling down and every call failing for another reason than a rate
  limit, the invocation raises after calling \<^verbatim>\<open>gsk_B\<close> twice and \<^verbatim>\<open>gsk_A\<close> never.
\<close>

theorem sweep_revisits_credential_counterexample:
  "isl (answer (with_key all_unreachable one_cooling)) \<and>
   attempts (with_key all_unreachable one_cooling) = [''gsk_B'', ''gsk_B'']"
  by code_simp

text \<open>
  Claim C4, amended. When the credentials are distinct and each of them is available
  whenever the invocation scans, whatever the failures are: the invocation raises only
  after every credential has been tried exactly once (the attempts are the credentials
  in round-robin order from the cursor), and no credential is tried twice (the attempts
  are a prefix of that order also when a call succeeds). In every state of the key
  manager \<^verbatim>\<open>next_key\<close> scans the credentials once, starting at the cursor, skips those
  cooling down and returns the first available one, or none.
\<close>

theorem sweep_tries_each_available_credential_once:
  assumes "distinct (keys km)" and "[] \<notin> set (keys km)"
    and "\<forall>i<length (keys km). \<forall>k\<in>set (keys km). is_available km k (clock_next w i)"
  shows "(isl (answer (with_key w km)) \<longrightarrow>
            attempts (with_key w km) = rotate (cursor km) (keys km)) \<and>
         (\<exists>m\<le>length (keys km). attempts (with_key w km) = take m (rotate (cursor km) (keys km))) \<and>
         distinct (attempts (with_key w km)) \<and>
         (\<forall>now. fst (next_key now km) =
            find (\<lambda>k. is_available km k now) (rotate (cursor km) (keys km)))"
proof -
  obtain m where m: "sweep_post w (rotate (cursor km) (keys km)) 0 km (length (keys km)) []
      (with_key w km) m"
    using with_key_sweep [OF assms] by blast
  then have a: "attempts (with_key w km) = take m (rotate (cursor km) (keys km))" "m \<le> length (keys km)"
    by (simp_all add: sweep_post_def)
  have "isl (answer (with_key w km)) \<longrightarrow> m = length (keys km)"
    using m by (simp add: sweep_post_def)
  moreover have "distinct (attempts (with_key w km))" using a assms(1) by simp
  ultimately show ?thesis using a by (auto simp: next_key_find)
qed

text \<open>A rate limit on the first credential and a connection error on the second.\<close>

theorem sweep_tries_each_available_credential_once_witness:
  "isl (answer (with_key mixed_failures two_keys)) \<and>
   attempts (with_key mixed_failures two_keys) = [''gsk_A'', ''gsk_B''] \<and>
   fst (next_key 200 one_cooling) = Some ''gsk_B''"
proof -
  have h1: "distinct (keys two_keys)" by (simp add: two_keys_def)
  have h2: "[] \<notin> set (keys two_keys)" by (simp add: two_keys_def)
  have h3: "\<forall>i<length (keys two_keys). \<forall>k\<in>set (keys two_keys).
      is_available two_keys k (clock_next mixed_failures i)"
    by (simp add: two_keys_def mixed_failures_def is_available_def)
  have k: "keys two_keys = [''gsk_A'', ''gsk_B'']" "cursor two_keys = 0"
    by (simp_all add: two_keys_def)
  have r: "isl (answer (with_key mixed_failures two_keys))" by code_simp
  have "attempts (with_key mixed_failures two_keys) = [''gsk_A'', ''gsk_B'']"
    using sweep_tries_each_available_credential_once [OF h1 h2 h3] r by (simp add: k)
  moreover have "fst (next_key 200 one_cooling) = Some ''gsk_B''" by code_simp
  ultimately show ?thesis using r by simp
qed

section \<open>Properties of the recorder\<close>

lemma step_cases [consumes 1, case_names Start Resume Pause Stop Cancel Take Reaped Reap Finish
    Spawn SStop SReap SExit SegEnd Watch Check Get Done]:
  assumes "step e s = Some s'"
  obtains
    "e = Call_start" "ctl s = CIdle" "s' = start s"
  | "e = Call_resume" "ctl s = CIdle" "s' = resume s"
  | "e = Call_pause" "ctl s = CIdle" "s' = pause_call s"
  | "e = Call_stop" "ctl s = CIdle" "s' = stop_call s"
  | "e = Call_cancel" "ctl s = CIdle" "s' = cancel_call s"
  | m where "e = Ctl" "ctl s = CJoinSched m" "\<not> running s" "s' = ctl_take m s"
  | m where "e = Ctl" "ctl s = CReap m []" "s' = ctl_reaped m s"
  | m sid rest where "e = Ctl" "ctl s = CReap m (sid # rest)" "\<not> segment_alive s sid"
      "s' = ctl_reap m sid rest s"
  | m where "e = Ctl" "ctl s = CJoinTr m" "\<not> transcriber_alive s" "s' = ctl_finish m s"
  | now where "e = Sched_spawn now" "scheduler s = Some SLoop" "\<not> stop_all s" "s' = sched_spawn now s"
  | "e = Sched_stop" "scheduler s = Some SLoop" "stop_all s" "s' = sched_stop s"
  | sid rest where "e = Sched_reap" "scheduler s = Some (SStopping (sid # rest))"
      "\<not> segment_alive s sid" "s' = sched_reap sid rest s"
  | "e = Sched_exit" "scheduler s = Some (SStopping [])" "s' = s\<lparr>scheduler := Some SDead\<rparr>"
  | sid cap p where "e = Seg_end sid cap p" "sid < length (segments s)" "segment_alive s sid"
      "fresh_path s p" "s' = segment_end sid cap p s"
  | sid where "e = Watch sid" "sid < length (segments s)" "\<not> segment_alive s sid"
      "\<not> watched (segments s ! sid)" "s' = watch_segment sid s"
  | "e = Tr_check" "transcriber_thread s = Some TCheck" "s' = tr_check s"
  | "e = Tr_get" "transcriber_thread s = Some TGet" "s' = tr_get s"
  | llm ts p where "e = Tr_done llm" "transcriber_thread s = Some (TFlight ts p)"
      "s' = tr_done llm ts p s"
proof (cases e)
  case Ctl
  then show ?thesis using assms that(6-9)
    by (cases "ctl s") (auto split: if_splits list.splits)
next
  case Sched_reap
  then show ?thesis using assms that(12)
    by (auto split: option.splits sched.splits list.splits if_splits)
next
  case (Tr_done llm)
  then show ?thesis using assms that(18)
    by (auto split: option.splits tpc.splits)
qed (use assms that in \<open>auto split: if_splits\<close>)

subsection \<open>What each step leaves unchanged\<close>

lemma queue_if_file_fields [simp]:
  "ctl (queue_if_file sid s) = ctl s"
  "stop_all (queue_if_file sid s) = stop_all s"
  "paused (queue_if_file sid s) = paused s"
  "scheduler (queue_if_file sid s) = scheduler s"
  "active (queue_if_file sid s) = active s"
  "transcriber_thread (queue_if_file sid s) = transcriber_thread s"
  "transcribing (queue_if_file sid s) = transcribing s"
  "segments (queue_if_file sid s) = segments s"
  "files (queue_if_file sid s) = files s"
  "results (queue_if_file sid s) = results s"
  "sink (queue_if_file sid s) = sink s"
  "max_retries (queue_if_file sid s) = max_retries s"
  by (simp_all add: queue_if_file_def Let_def split: option.split)

lemma unlink_if_file_fields [simp]:
  "ctl (unlink_if_file sid s) = ctl s"
  "stop_all (unlink_if_file sid s) = stop_all s"
  "paused (unlink_if_file sid s) = paused s"
  "scheduler (unlink_if_file sid s) = scheduler s"
  "active (unlink_if_file sid s) = active s"
  "transcriber_thread (unlink_if_file sid s) = transcriber_thread s"
  "transcribing (unlink_if_file sid s) = transcribing s"
  "segments (unlink_if_file sid s) = segments s"
  "pending_queue (unlink_if_file sid s) = pending_queue s"
  "log (unlink_if_file sid s) = log s"
  "results (unlink_if_file sid s) = results s"
  "sink (unlink_if_file sid s) = sink s"
  "max_retries (unlink_if_file sid s) = max_retries s"
  by (simp_all add: unlink_if_file_def split: option.split)

lemma stop_next_fields [simp]:
  "ctl (stop_next l s) = ctl s"
  "stop_all (stop_next l s) = stop_all s"
  "paused (stop_next l s) = paused s"
  "scheduler (stop_next l s) = scheduler s"
  "active (stop_next l s) = active s"
  "transcriber_thread (stop_next l s) = transcriber_thread s"
  "transcribing (stop_next l s) = transcribing s"
  "pending_queue (stop_next l s) = pending_queue s"
  "files (stop_next l s) = files s"
  "log (stop_next l s) = log s"
  "results (stop_next l s) = results s"
  "sink (stop_next l s) = sink s"
  "max_retries (stop_next l s) = max_retries s"
  "length (segments (stop_next l s)) = length (segments s)"
  by (simp_all add: stop_next_def set_stop_event_def split: list.split)

lemma nth_update_field:
  assumes "\<And>x. f (g x) = f x"
  shows "f (xs[k := g (xs ! k)] ! i) = f (xs ! i)"
  by (cases "k < length xs") (simp_all add: nth_list_update assms list_update_beyond)

lemma stop_next_segment [simp]:
  "file_path (segments (stop_next l s) ! i) = file_path (segments s ! i)"
  "ended (segments (stop_next l s) ! i) = ended (segments s ! i)"
  "started_at (segments (stop_next l s) ! i) = started_at (segments s ! i)"
  "watched (segments (stop_next l s) ! i) = watched (segments s ! i)"
  by (simp_all add: stop_next_def set_stop_event_def nth_update_field split: list.split)

lemma segment_alive_stop_next [simp]: "segment_alive (stop_next l s) i = segment_alive s i"
  by (simp add: segment_alive_def)

lemma running_simps [simp]:
  "running (s\<lparr>ctl := c\<rparr>) = running s"
  "running (s\<lparr>active := a\<rparr>) = running s"
  "running (s\<lparr>transcriber_thread := t\<rparr>) = running s"
  "running (stop_next l s) = running s"
  "running (queue_if_file sid s) = running s"
  "running (unlink_if_file sid s) = running s"
  by (simp_all add: running_def)

lemma write_transcript_fields [simp]:
  "ctl (write_transcript s) = ctl s"
  "stop_all (write_transcript s) = stop_all s"
  "paused (write_transcript s) = paused s"
  "scheduler (write_transcript s) = scheduler s"
  "active (write_transcript s) = active s"
  "transcriber_thread (write_transcript s) = transcriber_thread s"
  "transcribing (write_transcript s) = transcribing s"
  "segments (write_transcript s) = segments s"
  "pending_queue (write_transcript s) = pending_queue s"
  "files (write_transcript s) = files s"
  "log (write_transcript s) = log s"
  "results (write_transcript s) = results s"
  "max_retries (write_transcript s) = max_retries s"
  by (simp_all add: write_transcript_def Let_def)

lemma tr_done_fields [simp]:
  "ctl (tr_done llm ts p s) = ctl s"
  "stop_all (tr_done llm ts p s) = stop_all s"
  "paused (tr_done llm ts p s) = paused s"
  "scheduler (tr_done llm ts p s) = scheduler s"
  "active (tr_done llm ts p s) = active s"
  "transcriber_thread (tr_done llm ts p s) = Some TCheck"
  "transcribing (tr_done llm ts p s) = transcribing s - 1"
  "segments (tr_done llm ts p s) = segments s"
  "pending_queue (tr_done llm ts p s) = pending_queue s"
  "files (tr_done llm ts p s) = files s - {p}"
  "log (tr_done llm ts p s) = log s @ snd (transcribe_single (max_retries s) llm p)"
  "max_retries (tr_done llm ts p s) = max_retries s"
  by (simp_all add: tr_done_def Let_def split: prod.split)

lemma tr_get_fields [simp]:
  "ctl (tr_get s) = ctl s"
  "stop_all (tr_get s) = stop_all s"
  "paused (tr_get s) = paused s"
  "scheduler (tr_get s) = scheduler s"
  "active (tr_get s) = active s"
  "segments (tr_get s) = segments s"
  "files (tr_get s) = files s"
  "log (tr_get s) = log s"
  "results (tr_get s) = results s"
  "sink (tr_get s) = sink s"
  "max_retries (tr_get s) = max_retries s"
  by (simp_all add: tr_get_def split: list.split)

lemma tr_check_fields [simp]:
  "ctl (tr_check s) = ctl s"
  "stop_all (tr_check s) = stop_all s"
  "paused (tr_check s) = paused s"
  "scheduler (tr_check s) = scheduler s"
  "active (tr_check s) = active s"
  "transcribing (tr_check s) = transcribing s"
  "pending_queue (tr_check s) = pending_queue s"
  "segments (tr_check s) = segments s"
  "files (tr_check s) = files s"
  "log (tr_check s) = log s"
  "results (tr_check s) = results s"
  "sink (tr_check s) = sink s"
  "max_retries (tr_check s) = max_retries s"
  by (simp_all add: tr_check_def)

lemma start_fields [simp]:
  "ctl (start s) = ctl s"
  "active (start s) = active s"
  "transcribing (start s) = transcribing s"
  "segments (start s) = segments s"
  "files (start s) = files s"
  "log (start s) = log s"
  "max_retries (start s) = max_retries s"
  by (simp_all add: start_def clear_transcript_def)

lemma resume_fields [simp]:
  "ctl (resume s) = ctl s"
  "active (resume s) = active s"
  "transcribing (resume s) = transcribing s"
  "pending_queue (resume s) = pending_queue s"
  "results (resume s) = results s"
  "sink (resume s) = sink s"
  "segments (resume s) = segments s"
  "files (resume s) = files s"
  "log (resume s) = log s"
  "max_retries (resume s) = max_retries s"
  by (simp_all add: resume_def)

lemma pause_call_fields [simp]:
  "scheduler (pause_call s) = scheduler s"
  "active (pause_call s) = active s"
  "transcriber_thread (pause_call s) = transcriber_thread s"
  "transcribing (pause_call s) = transcribing s"
  "pending_queue (pause_call s) = pending_queue s"
  "results (pause_call s) = results s"
  "sink (pause_call s) = sink s"
  "segments (pause_call s) = segments s"
  "files (pause_call s) = files s"
  "log (pause_call s) = log s"
  "max_retries (pause_call s) = max_retries s"
  by (simp_all add: pause_call_def)

lemma watch_segment_fields [simp]:
  "ctl (watch_segment sid s) = ctl s"
  "stop_all (watch_segment sid s) = stop_all s"
  "paused (watch_segment sid s) = paused s"
  "scheduler (watch_segment sid s) = scheduler s"
  "transcriber_thread (watch_segment sid s) = transcriber_thread s"
  "transcribing (watch_segment sid s) = transcribing s"
  "files (watch_segment sid s) = files s"
  "results (watch_segment sid s) = results s"
  "sink (watch_segment sid s) = sink s"
  "max_retries (watch_segment sid s) = max_retries s"
  "length (segments (watch_segment sid s)) = length (segments s)"
  "file_path (segments (watch_segment sid s) ! i) = file_path (segments s ! i)"
  "ended (segments (watch_segment sid s) ! i) = ended (segments s ! i)"
  "started_at (segments (watch_segment sid s) ! i) = started_at (segments s ! i)"
  "active (watch_segment sid s) = remove1 sid (active s)"
  by (simp_all add: watch_segment_def Let_def nth_update_field remove1_idem)

lemma ctl_finish_fields [simp]:
  "ctl (ctl_finish m s) = CIdle"
  "stop_all (ctl_finish m s) = stop_all s"
  "paused (ctl_finish m s) = paused s"
  "scheduler (ctl_finish m s) = scheduler s"
  "active (ctl_finish m s) = active s"
  "transcriber_thread (ctl_finish m s) = None"
  "transcribing (ctl_finish m s) = transcribing s"
  "pending_queue (ctl_finish m s) = pending_queue s"
  "segments (ctl_finish m s) = segments s"
  "files (ctl_finish m s) = files s"
  "log (ctl_finish m s) = log s"
  "max_retries (ctl_finish m s) = max_retries s"
  by (simp_all add: ctl_finish_def clear_transcript_def split: op.split)

lemma ctl_reaped_fields [simp]:
  "ctl (ctl_reaped m s) = CJoinTr m"
  "stop_all (ctl_reaped m s) = stop_all s"
  "paused (ctl_reaped m s) = paused s"
  "scheduler (ctl_reaped m s) = scheduler s"
  "active (ctl_reaped m s) = (if m = Cancel then [] else active s)"
  "transcriber_thread (ctl_reaped m s) = transcriber_thread s"
  "transcribing (ctl_reaped m s) = transcribing s"
  "pending_queue (ctl_reaped m s) = (if m = Cancel then [] else pending_queue s)"
  "segments (ctl_reaped m s) = segments s"
  "files (ctl_reaped m s) = (if m = Cancel then files s - snd ` set (pending_queue s) else files s)"
  "log (ctl_reaped m s) = log s"
  "results (ctl_reaped m s) = results s"
  "sink (ctl_reaped m s) = sink s"
  "max_retries (ctl_reaped m s) = max_retries s"
  by (simp_all add: ctl_reaped_def clear_pending_def split: op.split)

lemma ctl_take_fields [simp]:
  "ctl (ctl_take m s) = CReap m (active s)"
  "stop_all (ctl_take m s) = stop_all s"
  "paused (ctl_take m s) = paused s"
  "scheduler (ctl_take m s) = scheduler s"
  "active (ctl_take m s) = (if m = Cancel then active s else [])"
  "transcriber_thread (ctl_take m s) = transcriber_thread s"
  "transcribing (ctl_take m s) = transcribing s"
  "pending_queue (ctl_take m s) = pending_queue s"
  "files (ctl_take m s) = files s"
  "log (ctl_take m s) = log s"
  "results (ctl_take m s) = results s"
  "sink (ctl_take m s) = sink s"
  "max_retries (ctl_take m s) = max_retries s"
  "length (segments (ctl_take m s)) = length (segments s)"
  "file_path (segments (ctl_take m s) ! i) = file_path (segments s ! i)"
  "ended (segments (ctl_take m s) ! i) = ended (segments s ! i)"
  "started_at (segments (ctl_take m s) ! i) = started_at (segments s ! i)"
  by (simp_all add: ctl_take_def split: op.split)

lemma ctl_reap_fields [simp]:
  "ctl (ctl_reap m sid rest s) = CReap m rest"
  "stop_all (ctl_reap m sid rest s) = stop_all s"
  "paused (ctl_reap m sid rest s) = paused s"
  "scheduler (ctl_reap m sid rest s) = scheduler s"
  "active (ctl_reap m sid rest s) = active s"
  "transcriber_thread (ctl_reap m sid rest s) = transcriber_thread s"
  "transcribing (ctl_reap m sid rest s) = transcribing s"
  "results (ctl_reap m sid rest s) = results s"
  "sink (ctl_reap m sid rest s) = sink s"
  "max_retries (ctl_reap m sid rest s) = max_retries s"
  "length (segments (ctl_reap m sid rest s)) = length (segments s)"
  "file_path (segments (ctl_reap m sid rest s) ! i) = file_path (segments s ! i)"
  "ended (segments (ctl_reap m sid rest s) ! i) = ended (segments s ! i)"
  "started_at (segments (ctl_reap m sid rest s) ! i) = started_at (segments s ! i)"
  "log (ctl_reap m sid rest s) = (if m = Cancel then log s else log (queue_if_file sid s))"
  "pending_queue (ctl_reap m sid rest s) =
     (if m = Cancel then pending_queue s else pending_queue (queue_if_file sid s))"
  "files (ctl_reap m sid rest s) = (if m = Cancel then files (unlink_if_file sid s) else files s)"
  by (simp_all add: ctl_reap_def split: op.split)

lemma sched_reap_fields [simp]:
  "ctl (sched_reap sid rest s) = ctl s"
  "stop_all (sched_reap sid rest s) = stop_all s"
  "paused (sched_reap sid rest s) = paused s"
  "scheduler (sched_reap sid rest s) = Some (SStopping rest)"
  "active (sched_reap sid rest s) = active s"
  "transcriber_thread (sched_reap sid rest s) = transcriber_thread s"
  "transcribing (sched_reap sid rest s) = transcribing s"
  "results (sched_reap sid rest s) = results s"
  "sink (sched_reap sid rest s) = sink s"
  "files (sched_reap sid rest s) = files s"
  "max_retries (sched_reap sid rest s) = max_retries s"
  "length (segments (sched_reap sid rest s)) = length (segments s)"
  "file_path (segments (sched_reap sid rest s) ! i) = file_path (segments s ! i)"
  "ended (segments (sched_reap sid rest s) ! i) = ended (segments s ! i)"
  "started_at (segments (sched_reap sid rest s) ! i) = started_at (segments s ! i)"
  "log (sched_reap sid rest s) = log (queue_if_file sid s)"
  "pending_queue (sched_reap sid rest s) = pending_queue (queue_if_file sid s)"
  by (simp_all add: sched_reap_def)

lemma sched_stop_fields [simp]:
  "ctl (sched_stop s) = ctl s"
  "stop_all (sched_stop s) = stop_all s"
  "paused (sched_stop s) = paused s"
  "scheduler (sched_stop s) = Some (SStopping (active s))"
  "active (sched_stop s) = []"
  "transcriber_thread (sched_stop s) = transcriber_thread s"
  "transcribing (sched_stop s) = transcribing s"
  "pending_queue (sched_stop s) = pending_queue s"
  "results (sched_stop s) = results s"
  "sink (sched_stop s) = sink s"
  "files (sched_stop s) = files s"
  "log (sched_stop s) = log s"
  "max_retries (sched_stop s) = max_retries s"
  "length (segments (sched_stop s)) = length (segments s)"
  "file_path (segments (sched_stop s) ! i) = file_path (segments s ! i)"
  "ended (segments (sched_stop s) ! i) = ended (segments s ! i)"
  "started_at (segments (sched_stop s) ! i) = started_at (segments s ! i)"
  by (simp_all add: sched_stop_def)

lemma sched_spawn_fields [simp]:
  "ctl (sched_spawn now s) = ctl s"
  "stop_all (sched_spawn now s) = stop_all s"
  "paused (sched_spawn now s) = paused s"
  "scheduler (sched_spawn now s) = scheduler s"
  "active (sched_spawn now s) = active s @ [length (segments s)]"
  "transcriber_thread (sched_spawn now s) = transcriber_thread s"
  "transcribing (sched_spawn now s) = transcribing s"
  "pending_queue (sched_spawn now s) = pending_queue s"
  "results (sched_spawn now s) = results s"
  "sink (sched_spawn now s) = sink s"
  "files (sched_spawn now s) = files s"
  "log (sched_spawn now s) = log s"
  "max_retries (sched_spawn now s) = max_retries s"
  "segments (sched_spawn now s) = segments s @ [new_segment now]"
  by (simp_all add: sched_spawn_def)

lemma segment_end_fields [simp]:
  "ctl (segment_end sid cap p s) = ctl s"
  "stop_all (segment_end sid cap p s) = stop_all s"
  "paused (segment_end sid cap p s) = paused s"
  "scheduler (segment_end sid cap p s) = scheduler s"
  "active (segment_end sid cap p s) = active s"
  "transcriber_thread (segment_end sid cap p s) = transcriber_thread s"
  "transcribing (segment_end sid cap p s) = transcribing s"
  "pending_queue (segment_end sid cap p s) = pending_queue s"
  "results (segment_end sid cap p s) = results s"
  "sink (segment_end sid cap p s) = sink s"
  "log (segment_end sid cap p s) = log s"
  "max_retries (segment_end sid cap p s) = max_retries s"
  "length (segments (segment_end sid cap p s)) = length (segments s)"
  by (simp_all add: segment_end_def segment_run_def split: capture.split prod.split)

lemma segment_end_started_at [simp]:
  "started_at (segments (segment_end sid cap p s) ! i) = started_at (segments s ! i)"
  by (cases "sid < length (segments s)")
     (auto simp: segment_end_def segment_run_def nth_list_update list_update_beyond
           split: capture.split)

lemma call_fields [simp]:
  "scheduler (stop_call s) = scheduler s" "scheduler (cancel_call s) = scheduler s"
  "active (stop_call s) = active s" "active (cancel_call s) = active s"
  "transcriber_thread (stop_call s) = transcriber_thread s"
  "transcriber_thread (cancel_call s) = transcriber_thread s"
  "transcribing (stop_call s) = transcribing s" "transcribing (cancel_call s) = transcribing s"
  "pending_queue (stop_call s) = pending_queue s" "pending_queue (cancel_call s) = pending_queue s"
  "segments (stop_call s) = segments s" "segments (cancel_call s) = segments s"
  "files (stop_call s) = files s" "files (cancel_call s) = files s"
  "log (stop_call s) = log s" "log (cancel_call s) = log s"
  "results (stop_call s) = results s" "results (cancel_call s) = results s"
  "sink (stop_call s) = sink s" "sink (cancel_call s) = sink s"
  "ctl (stop_call s) = CJoinSched Stop" "ctl (cancel_call s) = CJoinSched Cancel"
  "stop_all (stop_call s)" "stop_all (cancel_call s)"
  "\<not> paused (stop_call s)" "\<not> paused (cancel_call s)"
  by (simp_all add: stop_call_def cancel_call_def)

lemma running_steps [simp]:
  "running (ctl_take m s) = running s"
  "running (ctl_reap m sid rest s) = running s"
  "running (ctl_reaped m s) = running s"
  "running (ctl_finish m s) = running s"
  "running (pause_call s) = running s"
  "running (stop_call s) = running s"
  "running (cancel_call s) = running s"
  "running (segment_end sid cap p s) = running s"
  "running (watch_segment sid s) = running s"
  "running (tr_check s) = running s"
  "running (tr_get s) = running s"
  "running (tr_done llm ts p s) = running s"
  "running (sched_spawn now s) = running s"
  "running (sched_stop s)"
  "running (sched_reap sid rest s)"
  by (simp_all add: running_def)

lemma transcriber_alive_steps [simp]:
  "transcriber_alive (ctl_take m s) = transcriber_alive s"
  "transcriber_alive (ctl_reap m sid rest s) = transcriber_alive s"
  "transcriber_alive (ctl_reaped m s) = transcriber_alive s"
  "\<not> transcriber_alive (ctl_finish m s)"
  "transcriber_alive (pause_call s) = transcriber_alive s"
  "transcriber_alive (stop_call s) = transcriber_alive s"
  "transcriber_alive (cancel_call s) = transcriber_alive s"
  "transcriber_alive (segment_end sid cap p s) = transcriber_alive s"
  "transcriber_alive (watch_segment sid s) = transcriber_alive s"
  "transcriber_alive (tr_done llm ts p s)"
  "transcriber_alive (sched_spawn now s) = transcriber_alive s"
  "transcriber_alive (sched_stop s) = transcriber_alive s"
  "transcriber_alive (sched_reap sid rest s) = transcriber_alive s"
  "transcriber_alive (s\<lparr>scheduler := x\<rparr>) = transcriber_alive s"
  by (simp_all add: transcriber_alive_def)

lemma segment_alive_steps [simp]:
  "segment_alive (ctl_take m s) i = segment_alive s i"
  "segment_alive (ctl_reap m sid rest s) i = segment_alive s i"
  "segment_alive (ctl_reaped m s) i = segment_alive s i"
  "segment_alive (ctl_finish m s) i = segment_alive s i"
  "segment_alive (pause_call s) i = segment_alive s i"
  "segment_alive (stop_call s) i = segment_alive s i"
  "segment_alive (cancel_call s) i = segment_alive s i"
  "segment_alive (start s) i = segment_alive s i"
  "segment_alive (resume s) i = segment_alive s i"
  "segment_alive (watch_segment sid s) i = segment_alive s i"
  "segment_alive (tr_check s) i = segment_alive s i"
  "segment_alive (tr_get s) i = segment_alive s i"
  "segment_alive (tr_done llm ts p s) i = segment_alive s i"
  "segment_alive (sched_stop s) i = segment_alive s i"
  "segment_alive (sched_reap sid rest s) i = segment_alive s i"
  "segment_alive (queue_if_file sid s) i = segment_alive s i"
  "segment_alive (s\<lparr>scheduler := x\<rparr>) i = segment_alive s i"
  by (simp_all add: segment_alive_def)

lemma exec_invariant:
  assumes "\<And>e s s'. P s \<Longrightarrow> step e s = Some s' \<Longrightarrow> P s'"
  shows "P s \<Longrightarrow> exec evs s = Some s' \<Longrightarrow> P s'"
  by (induction evs arbitrary: s) (auto split: option.splits intro: assms)

lemma exec_append:
  "exec (es @ es') s = (case exec es s of None \<Rightarrow> None | Some s' \<Rightarrow> exec es' s')"
  by (induction es arbitrary: s) (auto split: option.splits)

lemma stop_inv_step:
  assumes "stop_inv s" "step e s = Some s'"
  shows "stop_inv s'"
  using assms(2,1)
proof (cases rule: step_cases)
  case Start then show ?thesis using assms(1) by (simp add: stop_inv_def)
next
  case Resume then show ?thesis using assms(1) by (simp add: stop_inv_def)
next
  case Pause then show ?thesis using assms(1) by (simp add: stop_inv_def pause_call_def)
next
  case Spawn then show ?thesis using assms(1)
    by (auto simp: stop_inv_def running_def split: cpc.splits)
next
  case SStop then show ?thesis using assms(1)
    by (auto simp: stop_inv_def running_def split: cpc.splits)
next
  case (SReap sid rest) then show ?thesis using assms(1)
    by (auto simp: stop_inv_def running_def split: cpc.splits)
next
  case SExit then show ?thesis using assms(1)
    by (auto simp: stop_inv_def running_def split: cpc.splits)
next
  case (SegEnd sid cap p) then show ?thesis using assms(1)
    by (auto simp: stop_inv_def running_def split: cpc.splits)
next
  case (Watch sid) then show ?thesis using assms(1)
    by (auto simp: stop_inv_def running_def split: cpc.splits)
next
  case Check then show ?thesis using assms(1)
    by (auto simp: stop_inv_def running_def split: cpc.splits)
next
  case Get then show ?thesis using assms(1)
    by (auto simp: stop_inv_def running_def split: cpc.splits)
next
  case (Done llm ts p) then show ?thesis using assms(1)
    by (auto simp: stop_inv_def running_def split: cpc.splits)
qed (use assms(1) in \<open>auto simp: stop_inv_def\<close>)

lemma stop_inv_init: "stop_inv (OverlapAudioManager_init t g d w r)"
  by (simp add: stop_inv_def OverlapAudioManager_init_def)






lemma sort_key_Nil_iff [simp]: "sort_key f xs = [] \<longleftrightarrow> xs = []"
  by (metis length_0_conv length_sort)




lemma transcribe_single_loop_all_fail:
  assumes "\<forall>i. llm i = RateLimited \<or> llm i = Failed"
  shows "int retries \<le> maxr \<Longrightarrow>
    transcribe_single_loop maxr llm p retries trace =
      ([], trace @ retry_trace p llm retries (nat maxr))"
proof (induction "nat maxr - retries" arbitrary: retries trace)
  case 0
  then have eq: "nat maxr = retries" by linarith
  then have "int (retries + 1) > maxr" by linarith
  moreover have "llm retries = RateLimited \<or> llm retries = Failed" using assms by simp
  ultimately show ?case using 0 eq
    by (subst transcribe_single_loop.simps) (auto simp: retry_trace_def)
next
  case (Suc d)
  then have lt: "\<not> int (retries + 1) > maxr" "int (retries + 1) \<le> maxr" by linarith+
  have d: "d = nat maxr - (retries + 1)" using Suc.hyps(2) by simp
  have up: "[retries..<nat maxr] = retries # [retries + 1..<nat maxr]"
    using Suc.hyps(2) by (simp add: upt_conv_Cons)
  have "llm retries = RateLimited \<or> llm retries = Failed" using assms by simp
  then show ?case
    using Suc.hyps(1) [OF d lt(2)] lt Suc.prems up
    by (subst transcribe_single_loop.simps) (auto simp: retry_trace_def retry_delay_def)
qed

text \<open>
  Claim failing_item_is_dropped says that at most \<^verbatim>\<open>max_retries\<close> attempts are made. With
  \<^verbatim>\<open>max_retries = 3\<close> and every attempt failing, the client is called four times,
  with three delays of one second between the calls.
\<close>

theorem retry_attempts_counterexample:
  "snd (transcribe_single 3 (\<lambda>_. Failed) 7) =
     [Transcribe 7, Sleep 1, Transcribe 7, Sleep 1, Transcribe 7, Sleep 1, Transcribe 7]"
  by code_simp

text \<open>
  Claim failing_item_is_dropped, amended. When every attempt for the item in flight fails and
  \<^verbatim>\<open>max_retries\<close> is not negative, the worker calls the client
  \<^verbatim>\<open>max_retries + 1\<close> times (the first attempt and \<^verbatim>\<open>max_retries\<close> retries); before
  each retry it sleeps 5 seconds when the failed attempt raised the rate-limit error of
  the client and 1 second after any other failure. It then drops the item: no result and
  no change of the transcript file, the audio file deleted, the count of items in flight
  decreased. The loop goes on: the transcriber is back at the head of its loop, the
  pending queue is untouched, and the next pending item is the next one taken.
\<close>

theorem failing_item_is_dropped:
  assumes "\<forall>i. llm i = RateLimited \<or> llm i = Failed"
    and "0 \<le> max_retries s"
    and "transcriber_thread s = Some (TFlight ts p)"
  shows "\<exists>s'. step (Tr_done llm) s = Some s' \<and>
      log s' = log s @
        concat (map (\<lambda>k. [Transcribe p, Sleep (if llm k = RateLimited then 5 else 1)])
                  [0..<nat (max_retries s)]) @ [Transcribe p] \<and>
      results s' = results s \<and> sink s' = sink s \<and> p \<notin> files s' \<and>
      transcribing s' = transcribing s - 1 \<and>
      pending_queue s' = pending_queue s \<and>
      transcriber_thread s' = Some TCheck \<and>
      (\<forall>ts' p' rest. pending_queue s = (ts', p') # rest \<longrightarrow>
         (\<exists>s''. exec [Tr_done llm, Tr_check, Tr_get] s = Some s'' \<and>
                transcriber_thread s'' = Some (TFlight ts' p')))"
proof -
  have d: "retry_delay (llm k) = (if llm k = RateLimited then 5 else 1)" for k
    using assms(1) [rule_format, of k] by (auto simp: retry_delay_def)
  have "transcribe_single (max_retries s) llm p = ([], retry_trace p llm 0 (nat (max_retries s)))"
    unfolding transcribe_single_def
    using transcribe_single_loop_all_fail [OF assms(1), of 0 "max_retries s" p "[]"] assms(2)
    by simp
  then show ?thesis using assms(3)
    by (auto simp: tr_done_def tr_check_def tr_get_def retry_trace_def d)
qed

text \<open>
  An item whose four attempts fail with another error than the rate limit, and a second
  item waiting behind it.
\<close>

theorem failing_item_is_dropped_witness:
  "map_option (\<lambda>s. (log s, results s, sink s, transcriber_thread s))
     (exec [Tr_done (\<lambda>_. Failed), Tr_check, Tr_get] stuck_item) =
   Some ([Transcribe 7, Sleep 1, Transcribe 7, Sleep 1, Transcribe 7, Sleep 1, Transcribe 7],
         [], None, Some (TFlight 12 8))"
proof -
  have h1: "\<forall>i. (\<lambda>_. Failed) i = RateLimited \<or> (\<lambda>_. Failed) i = Failed" by simp
  have h2: "0 \<le> max_retries stuck_item" by (simp add: stuck_item_def OverlapAudioManager_init_def)
  have h3: "transcriber_thread stuck_item = Some (TFlight 0 7)"
    by (simp add: stuck_item_def OverlapAudioManager_init_def)
  have q: "pending_queue stuck_item = (12, 8) # []"
    by (simp add: stuck_item_def OverlapAudioManager_init_def)
  have l: "log stuck_item = []" "results stuck_item = []" "sink stuck_item = None"
    "max_retries stuck_item = 3"
    by (simp_all add: stuck_item_def OverlapAudioManager_init_def)
  obtain s' where s': "step (Tr_done (\<lambda>_. Failed)) stuck_item = Some s'"
      "log s' = log stuck_item @
        concat (map (\<lambda>k. [Transcribe 7, Sleep (if (\<lambda>_. Failed) k = RateLimited then 5 else 1)])
                  [0..<nat (max_retries stuck_item)]) @ [Transcribe 7]"
      "results s' = results stuck_item" "sink s' = sink stuck_item"
      "pending_queue s' = pending_queue stuck_item" "transcriber_thread s' = Some TCheck"
    using failing_item_is_dropped [OF h1 h2 h3] by blast
  have up: "[0..<3] = [0, 1, 2]" by (simp add: upt_rec)
  have lg: "log s' = [Transcribe 7, Sleep 1, Transcribe 7, Sleep 1, Transcribe 7, Sleep 1, Transcribe 7]"
    using s'(2) by (simp add: l up)
  have "stop_all s' = stop_all stuck_item"
    using s'(1) h3 by (auto simp: )
  have c: "step Tr_check s' = Some (s'\<lparr>transcriber_thread := Some TGet\<rparr>)"
    using s'(5,6) q by (simp add: tr_check_def)
  have g: "step Tr_get (s'\<lparr>transcriber_thread := Some TGet\<rparr>) =
      Some (s'\<lparr>transcriber_thread := Some TGet, pending_queue := [],
               transcribing := transcribing s' + 1, transcriber_thread := Some (TFlight 12 8)\<rparr>)"
    using s'(5) q by (simp add: tr_get_def)
  show ?thesis
    by (simp only: exec.simps s'(1) c g option.case option.map) (simp add: lg s' l)
qed



text \<open>
  Claim second_stop_is_noop. When a call of \<^verbatim>\<open>stop\<close> has just returned (its last step is the one after
  the join of the transcriber), a second call of \<^verbatim>\<open>stop\<close> runs through all its steps
  without waiting for anything and ends in the very same state: the transcript file, the
  results, the pending queue and everything else are unchanged.
\<close>

theorem second_stop_is_noop:
  assumes "exec evs (OverlapAudioManager_init t g d w r) = Some s0"
    and "ctl s0 = CJoinTr Stop" and "step Ctl s0 = Some s"
  shows "exec [Call_stop, Ctl, Ctl, Ctl] s = Some s"
proof -
  have "stop_inv s0" using stop_inv_step stop_inv_init assms(1) by (rule exec_invariant)
  then have a: "stop_all s0" "\<not> paused s0" "\<not> running s0" "active s0 = []"
    using assms(2) by (auto simp: stop_inv_def)
  have s: "s = s0\<lparr>transcriber_thread := None, ctl := CIdle\<rparr>"
    using assms(2,3) by (auto simp: ctl_finish_def split: if_splits)
  have f: "ctl s = CIdle" "stop_all s" "\<not> paused s" "\<not> running s" "active s = []"
    "transcriber_thread s = None"
    using a by (simp_all add: s running_def)
  have e: "s\<lparr>paused := False, stop_all := True, active := [], transcriber_thread := None, ctl := CIdle\<rparr> = s"
    using f by (cases s) simp
  let ?s1 = "s\<lparr>paused := False, stop_all := True, ctl := CJoinSched Stop\<rparr>"
  let ?s2 = "?s1\<lparr>active := [], ctl := CReap Stop []\<rparr>"
  let ?s3 = "?s2\<lparr>ctl := CJoinTr Stop\<rparr>"
  have 1: "step Call_stop s = Some ?s1" using f(1) by (simp add: stop_call_def)
  have 2: "step Ctl ?s1 = Some ?s2"
    using f(4,5) by (simp add: running_def ctl_take_def stop_next_def)
  have 3: "step Ctl ?s2 = Some ?s3" by (simp add: ctl_reaped_def)
  have 4: "step Ctl ?s3 = Some (?s3\<lparr>transcriber_thread := None, ctl := CIdle\<rparr>)"
    using f(6) by (simp add: transcriber_alive_def ctl_finish_def)
  have "?s3\<lparr>transcriber_thread := None, ctl := CIdle\<rparr> = s" using e by simp
  then show ?thesis by (simp only: exec.simps 1 2 3 4 option.case)
qed

text \<open>
  A session started and stopped, and \<^verbatim>\<open>stop\<close> called once more.
\<close>

theorem second_stop_is_noop_witness:
  "exec (stop_then_return @ [Ctl, Call_stop, Ctl, Ctl, Ctl]) (OverlapAudioManager_init None 12 15 2 3) =
     exec (stop_then_return @ [Ctl]) (OverlapAudioManager_init None 12 15 2 3) \<and>
   map_option ctl (exec (stop_then_return @ [Ctl]) (OverlapAudioManager_init None 12 15 2 3)) =
     Some CIdle"
proof -
  let ?init = "OverlapAudioManager_init None 12 15 2 3"
  have c: "map_option (\<lambda>s. (ctl s, transcriber_thread s)) (exec stop_then_return ?init) =
      Some (CJoinTr Stop, Some TDead)"
    by (simp add: stop_then_return_def OverlapAudioManager_init_def start_def stop_call_def
        sched_stop_def stop_next_def running_def clear_transcript_def tr_check_def
        ctl_take_def ctl_reaped_def)
  then obtain s0 where s0: "exec stop_then_return ?init = Some s0" "ctl s0 = CJoinTr Stop"
    "transcriber_thread s0 = Some TDead" by auto
  have st: "step Ctl s0 = Some (ctl_finish Stop s0)"
    using s0 by (simp add: transcriber_alive_def)
  have again: "exec [Call_stop, Ctl, Ctl, Ctl] (ctl_finish Stop s0) = Some (ctl_finish Stop s0)"
    using second_stop_is_noop [OF s0(1,2) st] .
  have e1: "exec (stop_then_return @ [Ctl]) ?init = Some (ctl_finish Stop s0)"
    using s0(1) st by (simp add: exec_append)
  have "exec (stop_then_return @ [Ctl, Call_stop, Ctl, Ctl, Ctl]) ?init =
      exec ((stop_then_return @ [Ctl]) @ [Call_stop, Ctl, Ctl, Ctl]) ?init" by simp
  also have "\<dots> = Some (ctl_finish Stop s0)"
    unfolding exec_append [of "stop_then_return @ [Ctl]"] e1 using again by simp
  finally show ?thesis using e1 by simp
qed

lemma own_ok_shrink:
  assumes "own_ok os n fp st en L" "distinct os'" "set os' \<subseteq> set os"
  shows "own_ok os' n fp st en L"
  using assms unfolding own_ok_def by blast

lemma filter_enqueue_none:
  "filter (enqueue_of sid) L = [] \<Longrightarrow> Enqueue sid ts p \<notin> set L"
  by (auto simp: filter_empty_conv)

lemma own_ok_handle:
  assumes ok: "own_ok os n fp st en L" and sid: "sid \<in> set os"
    and os': "distinct os'" "set os' \<subseteq> set os - {sid}"
    and L': "L' = L \<or> (\<exists>p. fp sid = Some p \<and> L' = L @ [Enqueue sid (st sid) p])"
  shows "own_ok os' n fp st en L'"
proof (cases "L' = L")
  case True
  then show ?thesis using ok os' own_ok_shrink [of os n fp st en L os'] by auto
next
  case False
  then obtain p where p: "fp sid = Some p" "L' = L @ [Enqueue sid (st sid) p]" using L' by auto
  have n: "sid < n" "filter (enqueue_of sid) L = []" using ok sid by (auto simp: own_ok_def)
  have a: "\<forall>i\<in>set os'. i < n \<and> filter (enqueue_of i) L' = []"
    using ok os' p(2) unfolding own_ok_def by auto
  have b: "\<forall>i. length (filter (enqueue_of i) L') \<le> 1"
    using ok n p(2) unfolding own_ok_def by auto
  have c: "\<forall>i ts q. Enqueue i ts q \<in> set L' \<longrightarrow> i < n \<and> fp i = Some q \<and> st i = ts"
    using ok n p unfolding own_ok_def by auto
  show ?thesis using ok os'(1) a b c unfolding own_ok_def by blast
qed

lemma own_ok_segments:
  assumes ok: "own_ok os n fp st en L" and "n \<le> n'"
    and "\<forall>i<n. st' i = st i"
    and "\<forall>i<n. fp i \<noteq> None \<longrightarrow> fp' i = fp i"
    and "\<forall>i<n'. fp' i \<noteq> None \<longrightarrow> (\<exists>k. en' i = Some (Captured (Suc k)))"
  shows "own_ok os n' fp' st' en' L"
proof -
  have a: "\<forall>sid\<in>set os. sid < n' \<and> filter (enqueue_of sid) L = []"
    using ok assms(2) unfolding own_ok_def by fastforce
  have b: "sid < n' \<and> fp' sid = Some p \<and> st' sid = ts" if "Enqueue sid ts p \<in> set L" for sid ts p
  proof -
    have "sid < n" "fp sid = Some p" "st sid = ts" using ok that unfolding own_ok_def by blast+
    then show ?thesis using assms(2,3,4) by auto
  qed
  show ?thesis using ok a b assms(5) unfolding own_ok_def by blast
qed

lemma own_ok_log:
  assumes ok: "own_ok os n fp st en L" and "\<forall>a\<in>set T. \<forall>i. \<not> enqueue_of i a"
  shows "own_ok os n fp st en (L @ T)"
proof -
  have f: "filter (enqueue_of i) T = []" for i using assms(2) by (simp add: filter_empty_conv)
  have "Enqueue i ts p \<notin> set T" for i ts p using assms(2) by force
  then show ?thesis using ok f unfolding own_ok_def by auto
qed

lemma queue_if_file_log:
  "log (queue_if_file sid s) = log s \<or>
   (\<exists>p. file_path (segments s ! sid) = Some p \<and>
        log (queue_if_file sid s) = log s @ [Enqueue sid (started_at (segments s ! sid)) p])"
  by (simp add: queue_if_file_def Let_def split: option.split)

lemma watch_segment_log:
  "log (watch_segment sid s) = log s \<or>
   (sid \<in> set (active s) \<and>
    (\<exists>p. file_path (segments s ! sid) = Some p \<and>
        log (watch_segment sid s) = log s @ [Enqueue sid (started_at (segments s ! sid)) p]))"
  by (cases "sid < length (segments s)")
     (auto simp: watch_segment_def queue_if_file_def Let_def list_update_beyond split: option.split)

lemma transcribe_single_loop_actions:
  "set (snd (transcribe_single_loop maxr llm p retries trace))
     \<subseteq> set trace \<union> {Transcribe p, Sleep 5, Sleep 1}"
proof (induction "nat (maxr + 1 - int retries)" arbitrary: retries trace)
  case 0
  then have "\<not> int retries \<le> maxr" by linarith
  then show ?case by (subst transcribe_single_loop.simps) auto
next
  case (Suc d)
  then have le: "int retries \<le> maxr" by linarith
  have d: "d = nat (maxr + 1 - int (retries + 1))" using Suc.hyps(2) by linarith
  note ih = Suc.hyps(1) [OF d]
  show ?case
  proof (cases "llm retries")
    case (Text t)
    then show ?thesis using le by (subst transcribe_single_loop.simps) auto
  next
    case RateLimited
    show ?thesis
    proof (cases "int (retries + 1) > maxr")
      case True
      then show ?thesis using RateLimited le by (subst transcribe_single_loop.simps) auto
    next
      case False
      have "transcribe_single_loop maxr llm p retries trace =
          transcribe_single_loop maxr llm p (retries + 1) (trace @ [Transcribe p, Sleep 5])"
        using RateLimited le False by (subst transcribe_single_loop.simps) simp
      then show ?thesis using ih [of "trace @ [Transcribe p, Sleep 5]"] by auto
    qed
  next
    case Failed
    show ?thesis
    proof (cases "int (retries + 1) > maxr")
      case True
      then show ?thesis using Failed le by (subst transcribe_single_loop.simps) auto
    next
      case False
      have "transcribe_single_loop maxr llm p retries trace =
          transcribe_single_loop maxr llm p (retries + 1) (trace @ [Transcribe p, Sleep 1])"
        using Failed le False by (subst transcribe_single_loop.simps) simp
      then show ?thesis using ih [of "trace @ [Transcribe p, Sleep 1]"] by auto
    qed
  qed
qed

lemma transcribe_single_actions:
  "set (snd (transcribe_single maxr llm p)) \<subseteq> {Transcribe p, Sleep 5, Sleep 1}"
  using transcribe_single_loop_actions [of maxr llm p 0 "[]"] by (simp add: transcribe_single_def)

lemma transcribe_single_no_enqueue:
  "\<forall>a\<in>set (snd (transcribe_single maxr llm p)). \<forall>i. \<not> enqueue_of i a"
  using transcribe_single_actions [of maxr llm p] by auto

lemma not_running_sched_list: "\<not> running s \<Longrightarrow> sched_list (scheduler s) = []"
  by (cases "scheduler s") (auto simp: running_def split: sched.splits)

lemma own_inv_take:
  assumes "own_inv s" "ctl s = CJoinSched m" "\<not> running s"
  shows "own_inv (ctl_take m s)"
proof -
  have o: "owners s = active s" using assms(2,3) by (simp add: owners_def not_running_sched_list)
  have o': "owners (ctl_take m s) = (if m = Cancel then active s else active s)"
    using assms(3) by (cases m) (simp_all add: owners_def not_running_sched_list)
  have "own_view s (owners (ctl_take m s)) (log s)"
    using assms(1) o o' by (simp add: own_inv_def)
  then show ?thesis by (simp add: own_inv_def)
qed

lemma own_inv_reaped:
  assumes "own_inv s" "ctl s = CReap m []"
  shows "own_inv (ctl_reaped m s)"
proof -
  have o: "owners s = active s @ sched_list (scheduler s)"
    using assms(2) by (cases m) (simp_all add: owners_def)
  have "distinct (owners (ctl_reaped m s)) \<and> set (owners (ctl_reaped m s)) \<subseteq> set (owners s)"
    using assms(1) o by (cases m) (auto simp: owners_def own_inv_def own_ok_def)
  then have "own_view s (owners (ctl_reaped m s)) (log s)"
    using assms(1) unfolding own_inv_def by (auto intro: own_ok_shrink)
  then show ?thesis by (simp add: own_inv_def)
qed

lemma own_inv_handled:
  assumes inv: "own_inv s" and sid: "sid \<in> set (owners s)"
    and os': "distinct os'" "set os' \<subseteq> set (owners s) - {sid}"
    and L': "L' = log s \<or> (\<exists>p. file_path (segments s ! sid) = Some p \<and>
          L' = log s @ [Enqueue sid (started_at (segments s ! sid)) p])"
  shows "own_view s os' L'"
  using inv unfolding own_inv_def
  by (rule own_ok_handle [where sid = sid]) (use sid os' L' in auto)

lemma distinct_owners: "own_inv s \<Longrightarrow> distinct (owners s)"
  by (simp add: own_inv_def own_ok_def)

lemma own_inv_reap:
  assumes "own_inv s" "ctl s = CReap m (sid # rest)"
  shows "own_inv (ctl_reap m sid rest s)"
proof (cases "m = Cancel")
  case True
  then show ?thesis using assms by (simp add: own_inv_def owners_def)
next
  case False
  then have o: "owners s = active s @ sched_list (scheduler s) @ sid # rest"
    "owners (ctl_reap m sid rest s) = active s @ sched_list (scheduler s) @ rest"
    using assms(2) by (cases m; simp add: owners_def)+
  have d: "distinct (owners s)" using assms(1) by (rule distinct_owners)
  have "own_view s (owners (ctl_reap m sid rest s)) (log (ctl_reap m sid rest s))"
  proof (rule own_inv_handled [OF assms(1), where sid = sid])
    show "sid \<in> set (owners s)" by (simp add: o)
    show "distinct (owners (ctl_reap m sid rest s))" using d by (simp add: o)
    show "set (owners (ctl_reap m sid rest s)) \<subseteq> set (owners s) - {sid}"
      using d by (auto simp: o)
    show "log (ctl_reap m sid rest s) = log s \<or> (\<exists>p. file_path (segments s ! sid) = Some p \<and>
        log (ctl_reap m sid rest s) = log s @ [Enqueue sid (started_at (segments s ! sid)) p])"
      using False queue_if_file_log [of sid s] by simp
  qed
  then show ?thesis by (simp add: own_inv_def)
qed

lemma own_inv_sreap:
  assumes "own_inv s" "scheduler s = Some (SStopping (sid # rest))"
  shows "own_inv (sched_reap sid rest s)"
proof -
  have o: "owners s = active s @ (sid # rest) @ ctl_list (ctl s)"
    "owners (sched_reap sid rest s) = active s @ rest @ ctl_list (ctl s)"
    using assms(2) by (simp_all add: owners_def)
  have d: "distinct (owners s)" using assms(1) by (rule distinct_owners)
  have "own_view s (owners (sched_reap sid rest s)) (log (sched_reap sid rest s))"
  proof (rule own_inv_handled [OF assms(1), where sid = sid])
    show "sid \<in> set (owners s)" by (simp add: o)
    show "distinct (owners (sched_reap sid rest s))" using d by (simp add: o)
    show "set (owners (sched_reap sid rest s)) \<subseteq> set (owners s) - {sid}"
      using d by (auto simp: o)
    show "log (sched_reap sid rest s) = log s \<or> (\<exists>p. file_path (segments s ! sid) = Some p \<and>
        log (sched_reap sid rest s) = log s @ [Enqueue sid (started_at (segments s ! sid)) p])"
      using queue_if_file_log [of sid s] by simp
  qed
  then show ?thesis by (simp add: own_inv_def)
qed

lemma own_inv_sstop:
  assumes "own_inv s" "scheduler s = Some SLoop"
  shows "own_inv (sched_stop s)"
proof -
  have o: "owners s = active s @ ctl_list (ctl s)"
    "owners (sched_stop s) = active s @ ctl_list (ctl s)"
    using assms(2) by (simp_all add: owners_def)
  then show ?thesis using assms(1) by (simp add: own_inv_def)
qed

lemma own_inv_watch:
  assumes "own_inv s"
  shows "own_inv (watch_segment sid s)"
proof -
  let ?s' = "watch_segment sid s"
  have o: "owners ?s' = remove1 sid (active s) @ sched_list (scheduler s) @ ctl_list (ctl s)"
    by (simp add: owners_def)
  have d: "distinct (owners s)" using assms by (rule distinct_owners)
  then have d': "distinct (owners ?s')" by (auto simp: o owners_def)
  have sub: "set (owners ?s') \<subseteq> set (owners s)" by (auto simp: o owners_def)
  have "own_view s (owners ?s') (log ?s')"
  proof (cases "log ?s' = log s")
    case True
    then show ?thesis using assms d' sub unfolding own_inv_def by (auto intro: own_ok_shrink)
  next
    case False
    then have act: "sid \<in> set (active s)"
      and lg: "\<exists>p. file_path (segments s ! sid) = Some p \<and>
          log ?s' = log s @ [Enqueue sid (started_at (segments s ! sid)) p]"
      using watch_segment_log [of sid s] by auto
    show ?thesis
    proof (rule own_inv_handled [OF assms, where sid = sid])
      show "sid \<in> set (owners s)" using act by (simp add: owners_def)
      show "distinct (owners ?s')" by (rule d')
      show "set (owners ?s') \<subseteq> set (owners s) - {sid}"
        using d act by (auto simp: o owners_def)
      show "log ?s' = log s \<or> (\<exists>p. file_path (segments s ! sid) = Some p \<and>
          log ?s' = log s @ [Enqueue sid (started_at (segments s ! sid)) p])"
        using lg by simp
    qed
  qed
  then show ?thesis by (simp add: own_inv_def)
qed

lemma own_inv_done:
  assumes "own_inv s"
  shows "own_inv (tr_done llm ts p s)"
proof -
  have "own_view s (owners s) (log s @ snd (transcribe_single (max_retries s) llm p))"
    using assms transcribe_single_no_enqueue unfolding own_inv_def by (rule own_ok_log)
  then show ?thesis by (simp add: own_inv_def owners_def)
qed

lemma not_enqueued_beyond:
  assumes "own_inv s" "length (segments s) \<le> i"
  shows "filter (enqueue_of i) (log s) = []"
proof (rule ccontr)
  assume "filter (enqueue_of i) (log s) \<noteq> []"
  then obtain a where a: "a \<in> set (log s)" "enqueue_of i a"
    by (auto simp: filter_empty_conv)
  have "\<exists>ts p. a = Enqueue i ts p" using a(2) by (cases a) simp_all
  then obtain ts p where "a = Enqueue i ts p" by blast
  then have "i < length (segments s)" using assms(1) a(1) by (auto simp: own_inv_def own_ok_def)
  then show False using assms(2) by simp
qed

lemma own_inv_spawn:
  assumes "own_inv s"
  shows "own_inv (sched_spawn now s)"
proof -
  let ?n = "length (segments s)"
  let ?s' = "sched_spawn now s"
  have ok: "own_view s (owners s) (log s)" using assms by (simp add: own_inv_def)
  have seg: "own_ok (owners s) (Suc ?n) (\<lambda>i. file_path (segments ?s' ! i))
       (\<lambda>i. started_at (segments ?s' ! i)) (\<lambda>i. ended (segments ?s' ! i)) (log s)"
    using ok
  proof (rule own_ok_segments)
    show "?n \<le> Suc ?n" by simp
    show "\<forall>i<?n. started_at (segments ?s' ! i) = started_at (segments s ! i)"
      by (simp add: nth_append)
    show "\<forall>i<?n. file_path (segments s ! i) \<noteq> None \<longrightarrow>
        file_path (segments ?s' ! i) = file_path (segments s ! i)"
      by (simp add: nth_append)
    have old: "\<forall>i<?n. file_path (segments s ! i) \<noteq> None \<longrightarrow>
        (\<exists>k. ended (segments s ! i) = Some (Captured (Suc k)))"
      using ok unfolding own_ok_def by blast
    show "\<forall>i<Suc ?n. file_path (segments ?s' ! i) \<noteq> None \<longrightarrow>
        (\<exists>k. ended (segments ?s' ! i) = Some (Captured (Suc k)))"
    proof (intro allI impI)
      fix i assume i: "i < Suc ?n" and f: "file_path (segments ?s' ! i) \<noteq> None"
      show "\<exists>k. ended (segments ?s' ! i) = Some (Captured (Suc k))"
      proof (cases "i < ?n")
        case True
        then show ?thesis using old f by (simp add: nth_append)
      next
        case False
        then have "i = ?n" using i by simp
        then show ?thesis using f by (simp add: nth_append new_segment_def)
      qed
    qed
  qed
  have fresh: "?n \<notin> set (owners s)" using ok unfolding own_ok_def by blast
  have none: "filter (enqueue_of ?n) (log s) = []"
    using assms by (rule not_enqueued_beyond) simp
  have o: "owners ?s' = (active s @ [?n]) @ sched_list (scheduler s) @ ctl_list (ctl s)"
    by (simp add: owners_def)
  have d: "distinct (owners ?s')"
    using fresh ok unfolding own_ok_def o by (auto simp: owners_def)
  have m: "\<forall>sid\<in>set (owners ?s'). sid < Suc ?n \<and> filter (enqueue_of sid) (log s) = []"
  proof
    fix sid assume "sid \<in> set (owners ?s')"
    then have "sid = ?n \<or> sid \<in> set (owners s)" by (auto simp: o owners_def)
    then show "sid < Suc ?n \<and> filter (enqueue_of sid) (log s) = []"
      using none seg unfolding own_ok_def by auto
  qed
  have "own_ok (owners ?s') (Suc ?n) (\<lambda>i. file_path (segments ?s' ! i))
       (\<lambda>i. started_at (segments ?s' ! i)) (\<lambda>i. ended (segments ?s' ! i)) (log s)"
    using seg d m unfolding own_ok_def by blast
  then show ?thesis by (simp add: own_inv_def)
qed

lemma own_inv_segend:
  assumes "own_inv s" "sid < length (segments s)" "segment_alive s sid"
  shows "own_inv (segment_end sid cap p s)"
proof -
  let ?n = "length (segments s)"
  let ?s' = "segment_end sid cap p s"
  have ok: "own_view s (owners s) (log s)" using assms(1) by (simp add: own_inv_def)
  have old: "\<forall>i<?n. file_path (segments s ! i) \<noteq> None \<longrightarrow>
      (\<exists>k. ended (segments s ! i) = Some (Captured (Suc k)))"
    using ok unfolding own_ok_def by blast
  have nofile: "file_path (segments s ! sid) = None"
    using old assms(2,3) by (auto simp: segment_alive_def)
  have seg: "segments ?s' = (segments s)[sid := fst (segment_run cap p (segments s ! sid) (files s))]"
    by (simp add: segment_end_def split: prod.split)
  have other: "\<And>i. i \<noteq> sid \<Longrightarrow> segments ?s' ! i = segments s ! i" by (simp add: seg)
  have new: "file_path (segments ?s' ! sid) \<noteq> None \<longrightarrow>
      (\<exists>k. ended (segments ?s' ! sid) = Some (Captured (Suc k)))"
    using assms(2) nofile
    by (auto simp: segment_end_def segment_run_def gr0_conv_Suc split: capture.split)
  have "own_ok (owners s) ?n (\<lambda>i. file_path (segments ?s' ! i))
       (\<lambda>i. started_at (segments ?s' ! i)) (\<lambda>i. ended (segments ?s' ! i)) (log s)"
    using ok
  proof (rule own_ok_segments)
    show "?n \<le> ?n" by simp
    show "\<forall>i<?n. started_at (segments ?s' ! i) = started_at (segments s ! i)" by simp
    show "\<forall>i<?n. file_path (segments s ! i) \<noteq> None \<longrightarrow>
        file_path (segments ?s' ! i) = file_path (segments s ! i)"
      using nofile other by (metis)
    show "\<forall>i<?n. file_path (segments ?s' ! i) \<noteq> None \<longrightarrow>
        (\<exists>k. ended (segments ?s' ! i) = Some (Captured (Suc k)))"
      using old new other by metis
  qed
  then show ?thesis by (simp add: own_inv_def owners_def)
qed

lemma own_inv_step:
  assumes "own_inv s" "step e s = Some s'"
  shows "own_inv s'"
  using assms(2)
proof (cases rule: step_cases)
  case Start
  then show ?thesis using assms(1)
    by (auto simp: own_inv_def owners_def start_def clear_transcript_def not_running_sched_list)
next
  case Resume
  then show ?thesis using assms(1)
    by (auto simp: own_inv_def owners_def resume_def not_running_sched_list)
next
  case Pause
  then show ?thesis using assms(1)
    by (auto simp: own_inv_def owners_def pause_call_def)
next
  case Stop
  then show ?thesis using assms(1) by (simp add: own_inv_def owners_def)
next
  case Cancel
  then show ?thesis using assms(1) by (simp add: own_inv_def owners_def)
next
  case (Take m)
  then show ?thesis using assms(1) by (simp add: own_inv_take)
next
  case (Reaped m)
  then show ?thesis using assms(1) by (simp add: own_inv_reaped)
next
  case (Reap m sid rest)
  then show ?thesis using assms(1) by (simp add: own_inv_reap)
next
  case (Finish m)
  then show ?thesis using assms(1) by (simp add: own_inv_def owners_def)
next
  case (Spawn now)
  then show ?thesis using assms(1) by (simp add: own_inv_spawn)
next
  case SStop
  then show ?thesis using assms(1) by (simp add: own_inv_sstop)
next
  case (SReap sid rest)
  then show ?thesis using assms(1) by (simp add: own_inv_sreap)
next
  case SExit
  then show ?thesis using assms(1) by (simp add: own_inv_def owners_def)
next
  case (SegEnd sid cap p)
  then show ?thesis using assms(1) by (simp add: own_inv_segend)
next
  case (Watch sid)
  then show ?thesis using assms(1) by (simp add: own_inv_watch)
next
  case Check
  then show ?thesis using assms(1) by (simp add: own_inv_def owners_def)
next
  case Get
  then show ?thesis using assms(1) by (simp add: own_inv_def owners_def)
next
  case (Done llm ts p)
  then show ?thesis using assms(1) by (simp add: own_inv_done)
qed

lemma own_inv_init: "own_inv (OverlapAudioManager_init t g d w r)"
  by (simp add: own_inv_def own_ok_def owners_def OverlapAudioManager_init_def)

text \<open>
  Claim segment_enqueued_at_most_once. In every execution from a freshly built recorder, that is for every
  interleaving of the watchers with the shutdown of the scheduler and of the controller,
  a segment is put into the pending queue at most once, and only when its thread has
  ended with at least one block captured and no exception, with the file it wrote and its
  start time. A segment that ended with no block, or with an exception, has no file and is
  never put into the queue.
\<close>

theorem segment_enqueued_at_most_once:
  assumes "exec evs (OverlapAudioManager_init t g d w r) = Some s"
  shows "length (filter (enqueue_of sid) (log s)) \<le> 1 \<and>
     (\<forall>ts p. Enqueue sid ts p \<in> set (log s) \<longrightarrow>
        sid < length (segments s) \<and>
        (\<exists>k. ended (segments s ! sid) = Some (Captured (Suc k))) \<and>
        file_path (segments s ! sid) = Some p \<and> started_at (segments s ! sid) = ts) \<and>
     (sid < length (segments s) \<and>
      (ended (segments s ! sid) = Some (Captured 0) \<or> ended (segments s ! sid) = Some CaptureError) \<longrightarrow>
        file_path (segments s ! sid) = None \<and> filter (enqueue_of sid) (log s) = [])"
proof -
  have inv: "own_inv s" using own_inv_step own_inv_init assms by (rule exec_invariant)
  then have once: "length (filter (enqueue_of sid) (log s)) \<le> 1"
    and enq: "\<And>ts p. Enqueue sid ts p \<in> set (log s) \<Longrightarrow>
        sid < length (segments s) \<and> file_path (segments s ! sid) = Some p \<and>
        started_at (segments s ! sid) = ts"
    and hasfile: "\<And>i. i < length (segments s) \<Longrightarrow> file_path (segments s ! i) \<noteq> None \<Longrightarrow>
        (\<exists>k. ended (segments s ! i) = Some (Captured (Suc k)))"
    unfolding own_inv_def own_ok_def by blast+
  have a: "sid < length (segments s) \<and>
        (\<exists>k. ended (segments s ! sid) = Some (Captured (Suc k))) \<and>
        file_path (segments s ! sid) = Some p \<and> started_at (segments s ! sid) = ts"
    if "Enqueue sid ts p \<in> set (log s)" for ts p
    using enq [OF that] hasfile [of sid] by auto
  have b: "file_path (segments s ! sid) = None \<and> filter (enqueue_of sid) (log s) = []"
    if lt: "sid < length (segments s)"
      and e: "ended (segments s ! sid) = Some (Captured 0) \<or> ended (segments s ! sid) = Some CaptureError"
  proof -
    have n: "file_path (segments s ! sid) = None"
      using hasfile [OF lt] e by (cases "file_path (segments s ! sid)") auto
    have "filter (enqueue_of sid) (log s) = []"
    proof (rule ccontr)
      assume "filter (enqueue_of sid) (log s) \<noteq> []"
      then obtain x where x: "x \<in> set (log s)" "enqueue_of sid x"
        by (auto simp: filter_empty_conv)
      have "\<exists>ts p. x = Enqueue sid ts p" using x(2) by (cases x) simp_all
      then show False using enq x(1) n by auto
    qed
    then show ?thesis using n by simp
  qed
  show ?thesis using once a b by blast
qed

text \<open>
  The first segment ends by itself just before \<^verbatim>\<open>stop\<close>; the scheduler takes both
  segments before the watcher of the first runs; the second is stopped before its first
  block.
\<close>

theorem segment_enqueued_at_most_once_witness:
  "map_option (\<lambda>s. (log s, map ended (segments s)))
     (exec watcher_races_shutdown (OverlapAudioManager_init None 12 15 2 3)) =
   Some ([Enqueue 0 0 7], [Some (Captured 200), Some (Captured 0)])"
proof -
  let ?init = "OverlapAudioManager_init None 12 15 2 3"
  have ev: "map_option (\<lambda>s. (log s, map ended (segments s), map file_path (segments s)))
      (exec watcher_races_shutdown ?init) =
      Some ([Enqueue 0 0 7], [Some (Captured 200), Some (Captured 0)], [Some 7, None])"
    by (simp add: watcher_races_shutdown_def OverlapAudioManager_init_def start_def stop_call_def
        sched_spawn_def sched_stop_def sched_reap_def stop_next_def set_stop_event_def
        running_def clear_transcript_def segment_alive_def segment_end_def segment_run_def
        fresh_path_def new_segment_def watch_segment_def queue_if_file_def Let_def)
  then obtain s where s: "exec watcher_races_shutdown ?init = Some s" by auto
  have "length (filter (enqueue_of 0) (log s)) \<le> 1" using segment_enqueued_at_most_once [OF s, of 0] by simp
  then show ?thesis using ev s by simp
qed

text \<open>
  Claim cancel_transcribes_active_segment at a concrete execution: \<^verbatim>\<open>cancel\<close> is called while one segment records and
  the transcriber waits. During the join of the scheduler in \<^verbatim>\<open>cancel\<close>, the scheduler
  leaves its loop through \<^verbatim>\<open>_stop_active_segments\<close>, which stops the segment and puts
  its file into the pending queue; the transcriber takes it and sends it to the client.
  When \<^verbatim>\<open>cancel\<close> returns, the transcript file is absent and the queue and the results
  are empty, but the audio of the active segment has been transcribed.
\<close>

theorem cancel_transcribes_active_segment:
  "map_option (\<lambda>s. (ctl s, sink s, pending_queue s, results s, log s))
     (exec cancel_while_recording (OverlapAudioManager_init None 12 15 2 3)) =
   Some (CIdle, None, [], [], [Enqueue 0 0 7, Transcribe 7])"
  by (simp add: cancel_while_recording_def OverlapAudioManager_init_def start_def cancel_call_def
      sched_spawn_def sched_stop_def sched_reap_def stop_next_def set_stop_event_def
      running_def transcriber_alive_def clear_transcript_def segment_alive_def segment_end_def
      segment_run_def fresh_path_def new_segment_def queue_if_file_def Let_def
      tr_check_def tr_get_def tr_done_def transcribe_single_def transcribe_single_loop.simps
      write_transcript_def strip_def is_space_def
      ctl_take_def ctl_reaped_def ctl_finish_def clear_pending_def)

end
